theory Spec2Isabelle
  imports Complex_Main "HOL-Library.Word" "HOL-Library.Signed_Division"
begin

section \<open>The computation and colouring engine of fractalExplorer.cpp\<close>

text \<open>
  The embedding follows \<^verbatim>\<open>src/fractalExplorer.cpp\<close> function by function.

  Numbers. The value of a C++ \<^verbatim>\<open>double\<close> or \<^verbatim>\<open>float\<close> is a real number. In
  \<^verbatim>\<open>calculateFractal\<close> and in the sample coordinates of the renderers the arithmetic
  is exact: rounding is not part of the model there. In the colouring of a sample
  (lines 212-222 and 101-107) and in \<^verbatim>\<open>adjustIterations\<close> every operation returns the
  exact result rounded to the nearest value of its format, ties to even, as IEEE 754
  arithmetic does when each expression is evaluated in the type of its operands. The
  places where the source leaves the real numbers (an infinity or a NaN) are written
  out as faults: a float division by an iteration count of zero, a logarithm of a
  non-positive number, a quotient that overflows, a conversion to \<^verbatim>\<open>int\<close> of a value
  outside the range of \<^verbatim>\<open>int\<close>, and a loop that never returns. An \<^verbatim>\<open>int\<close> is modelled
  by an unbounded integer; a counter that the source would increment for ever (up to
  signed overflow) is a loop that does not return. \<^verbatim>\<open>sf::Uint8\<close> is an 8-bit word,
  \<^verbatim>\<open>size_t\<close> has 64 bits.
\<close>

subsection \<open>Faults\<close>

datatype fault = NonTermination | ZeroDivisor | NotANumber | IntCastRange

subsection \<open>Data: colours, render state, iteration result (lines 11-48)\<close>

type_synonym Uint8 = "8 word"

text \<open>\<^verbatim>\<open>sf::Color\<close>: four channels; the three-argument constructor sets alpha to 255.\<close>

record Color =
  chan_r :: Uint8
  chan_g :: Uint8
  chan_b :: Uint8
  chan_a :: Uint8

definition sfColor :: "Uint8 \<Rightarrow> Uint8 \<Rightarrow> Uint8 \<Rightarrow> Color" where
  "sfColor x y z = \<lparr>chan_r = x, chan_g = y, chan_b = z, chan_a = 255\<rparr>"

definition ESCAPE_RADIUS_SQUARED :: real where
  "ESCAPE_RADIUS_SQUARED = 100 * 100"

definition PREVIEW_DOWNSCALE :: int where
  "PREVIEW_DOWNSCALE = 12"

record RenderState =
  viewportX :: real
  viewportY :: real
  viewportSize :: real
  maxIterations :: int
  colorDensity :: real
  showJulia :: bool
  juliaX :: real
  juliaY :: real
  colorScheme :: int
  autoIterations :: bool
  fractalType :: int
  stripes :: bool
  stripeFrequency :: real
  stripeIntensity :: real
  innerCalculation :: bool

text \<open>
  The member initialisers of \<^verbatim>\<open>struct RenderState\<close> (lines 27-41). The \<^verbatim>\<open>float\<close>
  nearest to 0.2 is \<open>13421773 / 2^26\<close>. The Julia seed enters \<^verbatim>\<open>calculateFractal\<close> only,
  where the arithmetic is exact, and keeps its decimal value.
\<close>

definition defaultState :: RenderState where
  "defaultState = \<lparr>viewportX = - 0.5, viewportY = 0, viewportSize = 3, maxIterations = 128,
     colorDensity = 13421773 / 67108864, showJulia = False, juliaX = - 0.8, juliaY = 0.156, colorScheme = 0,
     autoIterations = True, fractalType = 0, stripes = True, stripeFrequency = 5,
     stripeIntensity = 10, innerCalculation = False\<rparr>"

text \<open>
  \<^verbatim>\<open>struct ReturnInfo\<close>. The early returns of \<^verbatim>\<open>calculateFractal\<close> assign only
  \<^verbatim>\<open>iteration\<close>; a field that holds no real number (never assigned, or the result of a
  logarithm outside its domain) is \<^term>\<open>None\<close>.
\<close>

record ReturnInfo =
  iteration :: int
  smoothIteration :: "real option"
  stripeSum :: "real option"

subsection \<open>Palettes (lines 57-98)\<close>

definition PALETTES :: "Color list list" where
  "PALETTES = [
     [sfColor 66 30 15, sfColor 25 7 26, sfColor 9 1 47,
      sfColor 4 4 73, sfColor 0 7 100, sfColor 12 44 138,
      sfColor 24 82 177, sfColor 57 125 209, sfColor 134 181 229,
      sfColor 211 236 248, sfColor 241 233 191, sfColor 248 201 95,
      sfColor 255 170 0, sfColor 204 128 0, sfColor 153 87 0],
     [sfColor 0 0 0, sfColor 20 0 0, sfColor 40 0 0,
      sfColor 80 0 0, sfColor 120 20 0, sfColor 160 40 0,
      sfColor 200 80 0, sfColor 240 120 0, sfColor 255 160 0,
      sfColor 255 200 0, sfColor 255 240 40, sfColor 255 255 100,
      sfColor 255 255 170, sfColor 255 255 220, sfColor 255 255 255],
     [sfColor 0 0 0, sfColor 32 32 32, sfColor 64 64 64,
      sfColor 96 96 96, sfColor 128 128 128, sfColor 160 160 160,
      sfColor 192 192 192, sfColor 224 224 224, sfColor 255 255 255],
     [sfColor 3 13 30, sfColor 6 26 48, sfColor 9 38 67,
      sfColor 17 55 92, sfColor 25 71 116, sfColor 33 88 140,
      sfColor 41 105 165, sfColor 50 138 193, sfColor 64 174 224,
      sfColor 110 197 233, sfColor 158 218 241, sfColor 198 236 248,
      sfColor 214 249 255, sfColor 225 252 255, sfColor 240 255 255],
     [sfColor 15 20 40, sfColor 20 30 65, sfColor 30 40 90,
      sfColor 40 60 120, sfColor 65 90 150, sfColor 95 130 180,
      sfColor 135 175 205, sfColor 175 205 225, sfColor 200 225 240,
      sfColor 220 235 245, sfColor 230 243 250, sfColor 240 250 253,
      sfColor 245 253 255, sfColor 250 255 255, sfColor 255 255 255]]"

subsection \<open>Conversions and library functions\<close>

text \<open>
  \<^verbatim>\<open>static_cast<int>\<close> of a floating value truncates towards zero and is undefined when
  the truncated value is not an \<^verbatim>\<open>int\<close>.
\<close>

definition truncate_real :: "real \<Rightarrow> int" where
  "truncate_real v = (if 0 \<le> v then \<lfloor>v\<rfloor> else - \<lfloor>- v\<rfloor>)"

definition static_cast_int :: "real \<Rightarrow> fault + int" where
  "static_cast_int v =
     (if - 2147483649 < v \<and> v < 2147483648 then Inr (truncate_real v) else Inl IntCastRange)"

text \<open>
  \<^verbatim>\<open>static_cast<sf::Uint8>\<close> truncates towards zero. \<^verbatim>\<open>interpolateColors\<close> is only called
  with a factor in [0,1), where the value lies between two channel values; outside
  [0,256) the model keeps the low eight bits.
\<close>

definition static_cast_Uint8 :: "real \<Rightarrow> Uint8" where
  "static_cast_Uint8 v = word_of_int (truncate_real v)"

text \<open>The conversion of an \<^verbatim>\<open>int\<close> operand to \<^verbatim>\<open>size_t\<close> in \<^verbatim>\<open>int % size_t\<close>.\<close>

definition to_size_t :: "int \<Rightarrow> nat" where
  "to_size_t n = nat (n mod 2 ^ 64)"

text \<open>\<^verbatim>\<open>atan2(y, x)\<close> of the C library, on real arguments.\<close>

definition atan2 :: "real \<Rightarrow> real \<Rightarrow> real" where
  "atan2 y x =
     (if 0 < x then arctan (y / x)
      else if x < 0 then (if 0 \<le> y then arctan (y / x) + pi else arctan (y / x) - pi)
      else if 0 < y then pi / 2
      else if y < 0 then - (pi / 2)
      else 0)"

subsection \<open>Floating-point rounding\<close>

text \<open>
  Rounding to the nearest integer, ties to the even one.
\<close>

definition round_ties_even :: "real \<Rightarrow> int" where
  "round_ties_even y =
     (let f = \<lfloor>y\<rfloor> in
      if y - real_of_int f < 1 / 2 then f
      else if 1 / 2 < y - real_of_int f then f + 1
      else if even f then f else f + 1)"

text \<open>
  A binary format with \<open>p\<close> significand bits whose least normal exponent is \<open>emin\<close>
  holds the numbers \<open>m * 2^e\<close> with \<open>|m| < 2^p\<close> and \<open>e \<ge> emin - p + 1\<close>. The spacing
  of these numbers around \<open>x\<close> is \<open>2\<close> to the power \<open>ulp_exponent p emin x\<close>
  (below \<open>2^emin\<close>, among the subnormal numbers, it is constant), and
  \<open>round_fp p emin x\<close> is the number of the format nearest to \<open>x\<close>, ties to even. The
  exponent is not bounded above: a result of magnitude \<open>2^1024\<close> or more stands for a
  \<^verbatim>\<open>double\<close> operation that overflows to an infinity.
\<close>

definition ulp_exponent :: "nat \<Rightarrow> int \<Rightarrow> real \<Rightarrow> int" where
  "ulp_exponent p emin x = max \<lfloor>log 2 \<bar>x\<bar>\<rfloor> emin - int p + 1"

definition round_fp :: "nat \<Rightarrow> int \<Rightarrow> real \<Rightarrow> real" where
  "round_fp p emin x =
     (if x = 0 then 0
      else real_of_int (round_ties_even (x / 2 powi ulp_exponent p emin x))
             * 2 powi ulp_exponent p emin x)"

text \<open>\<^verbatim>\<open>double\<close> is binary64 and \<^verbatim>\<open>float\<close> is binary32.\<close>

definition round_double :: "real \<Rightarrow> real" where
  "round_double = round_fp 53 (- 1022)"

definition round_float :: "real \<Rightarrow> real" where
  "round_float = round_fp 24 (- 126)"

definition finite_double :: "real \<Rightarrow> bool" where
  "finite_double x = (\<bar>x\<bar> < 2 ^ 1024)"

text \<open>
  \<^verbatim>\<open>log10\<close> comes from the C library, which does not promise the nearest \<^verbatim>\<open>double\<close>.
  \<^verbatim>\<open>adjustIterations\<close> therefore takes the library function as a parameter; the
  function below is the one that does return the nearest \<^verbatim>\<open>double\<close>.
\<close>

definition log10_rounded :: "real \<Rightarrow> real" where
  "log10_rounded x = round_double (log 10 x)"

subsection \<open>interpolateColors (lines 101-107)\<close>

text \<open>
  In \<^verbatim>\<open>c1.r + factor * (c2.r - c1.r)\<close> the difference is an \<^verbatim>\<open>int\<close>, the product and
  the sum are \<^verbatim>\<open>double\<close> operations.
\<close>

definition interpolateColors :: "Color \<Rightarrow> Color \<Rightarrow> real \<Rightarrow> Color" where
  "interpolateColors c1 c2 factor =
     sfColor
       (static_cast_Uint8 (round_double (real_of_int (uint (chan_r c1))
          + round_double (factor * real_of_int (uint (chan_r c2) - uint (chan_r c1))))))
       (static_cast_Uint8 (round_double (real_of_int (uint (chan_g c1))
          + round_double (factor * real_of_int (uint (chan_g c2) - uint (chan_g c1))))))
       (static_cast_Uint8 (round_double (real_of_int (uint (chan_b c1))
          + round_double (factor * real_of_int (uint (chan_b c2) - uint (chan_b c1))))))"

subsection \<open>calculateFractal (lines 110-168)\<close>

text \<open>The local variables of the main iteration loop.\<close>

record LoopVars =
  lv_zr :: real
  lv_zi :: real
  lv_zr2 :: real
  lv_zi2 :: real
  lv_stripeSum :: real
  lv_i :: int

text \<open>
  The smoothing formula \<^verbatim>\<open>i + 1 - log(log(zr2 + zi2) / 2) / log(2)\<close> (lines 152, 165).
  It is a real number when \<^verbatim>\<open>zr2 + zi2 > 1\<close>; otherwise the inner logarithm is not
  positive and the result is NaN or infinite.
\<close>

definition smoothFormula :: "int \<Rightarrow> real \<Rightarrow> real option" where
  "smoothFormula n m =
     (if 1 < m then Some (real_of_int n + 1 - ln (ln m / 2) / ln 2) else None)"

text \<open>The term added to \<^verbatim>\<open>stripeSum\<close> in one pass (line 147), at the updated z.\<close>

definition stripeTerm :: "real \<Rightarrow> LoopVars \<Rightarrow> real" where
  "stripeTerm sfreq s = (sin (atan2 (lv_zi s) (lv_zr s) * sfreq)) ^ 2"

text \<open>One pass of the loop body up to and including \<^verbatim>\<open>i++\<close> (lines 142-148).\<close>

definition loopBody :: "real \<Rightarrow> real \<Rightarrow> int \<Rightarrow> bool \<Rightarrow> real \<Rightarrow> LoopVars \<Rightarrow> LoopVars" where
  "loopBody cr_actual ci_actual ftype strp sfreq s =
     (let zi1 = (if ftype = 0 then 2 * lv_zr s * lv_zi s else 2 * \<bar>lv_zr s * lv_zi s\<bar>);
          zi' = zi1 + ci_actual;
          zr' = lv_zr2 s - lv_zi2 s + cr_actual;
          s' = s\<lparr>lv_zr := zr', lv_zi := zi', lv_zr2 := zr' * zr', lv_zi2 := zi' * zi'\<rparr>
      in s'\<lparr>lv_stripeSum := (if strp then lv_stripeSum s + stripeTerm sfreq s'
                               else lv_stripeSum s),
             lv_i := lv_i s + 1\<rparr>)"

text \<open>
  The values that the function returns: the interior sentinel (lines 124-125, 130-131
  and 157-158) and the detailed result (lines 151-154 and 164-167).
\<close>

definition sentinelInfo :: ReturnInfo where
  "sentinelInfo = \<lparr>iteration = - 1, smoothIteration = None, stripeSum = None\<rparr>"

definition detailInfo :: "LoopVars \<Rightarrow> ReturnInfo" where
  "detailInfo s = \<lparr>iteration = lv_i s,
     smoothIteration = smoothFormula (lv_i s) (lv_zr2 s + lv_zi2 s),
     stripeSum = Some (lv_stripeSum s)\<rparr>"

text \<open>
  The main iteration loop (lines 141-161). \<^term>\<open>None\<close> is a loop that never returns:
  the counter passes \<^verbatim>\<open>maxIter\<close> without being equal to it and the point never escapes.
\<close>

partial_function (option) mainLoop ::
  "real \<Rightarrow> real \<Rightarrow> int \<Rightarrow> int \<Rightarrow> bool \<Rightarrow> real \<Rightarrow> bool \<Rightarrow> LoopVars \<Rightarrow> ReturnInfo option" where
  "mainLoop cr_actual ci_actual maxIter ftype strp sfreq inner s =
     (if lv_zr2 s + lv_zi2 s < ESCAPE_RADIUS_SQUARED then
        (let s' = loopBody cr_actual ci_actual ftype strp sfreq s in
         if lv_i s' = maxIter then
           (if inner then Some (detailInfo s') else Some sentinelInfo)
         else mainLoop cr_actual ci_actual maxIter ftype strp sfreq inner s')
      else Some (detailInfo s))"

text \<open>The early bailout tests for the Mandelbrot set (lines 122-123 and 129).\<close>

definition cardioidTest :: "real \<Rightarrow> real \<Rightarrow> bool" where
  "cardioidTest cr ci =
     (let q = (cr - 0.25) * (cr - 0.25) + ci * ci
      in q * (q + (cr - 0.25)) < 0.25 * ci * ci)"

definition bulbTest :: "real \<Rightarrow> real \<Rightarrow> bool" where
  "bulbTest cr ci = ((cr + 1.0) * (cr + 1.0) + ci * ci < 0.0625)"

text \<open>The locals when the loop is entered (lines 112-113 and 135-138).\<close>

definition loopEntry :: "real \<Rightarrow> real \<Rightarrow> bool \<Rightarrow> LoopVars" where
  "loopEntry cr ci isJulia =
     (let zr = (if isJulia then cr else 0);
          zi = (if isJulia then ci else 0)
      in \<lparr>lv_zr = zr, lv_zi = zi, lv_zr2 = zr * zr, lv_zi2 = zi * zi,
          lv_stripeSum = 0, lv_i = 0\<rparr>)"

definition calculateFractal ::
  "real \<Rightarrow> real \<Rightarrow> real \<Rightarrow> real \<Rightarrow> int \<Rightarrow> bool \<Rightarrow> int \<Rightarrow> bool \<Rightarrow> real \<Rightarrow> bool
     \<Rightarrow> fault + ReturnInfo" where
  "calculateFractal cr ci jr ji maxIter isJulia ftype strp sfreq inner =
     (let cr_actual = (if isJulia then jr else cr);
          ci_actual = (if isJulia then ji else ci)
      in
      if inner \<and> \<not> isJulia \<and> ftype = 0 \<and> cardioidTest cr ci then Inr sentinelInfo
      else if inner \<and> \<not> isJulia \<and> ftype = 0 \<and> bulbTest cr ci then Inr sentinelInfo
      else
        (case mainLoop cr_actual ci_actual maxIter ftype strp sfreq inner
                (loopEntry cr ci isJulia) of
           None \<Rightarrow> Inl NonTermination
         | Some info \<Rightarrow> Inr info))"

subsection \<open>Colouring of one sample (lines 207-223, repeated at lines 250-266)\<close>

text \<open>
  \<^verbatim>\<open>renderFractalRegion\<close> and \<^verbatim>\<open>renderPreview\<close> contain the same statements, character
  for character, between the call of \<^verbatim>\<open>calculateFractal\<close> and the write to the buffer.
  They are modelled once.

  The colour scalar \<^verbatim>\<open>float iterations\<close> (lines 212-219). In stripe mode the source
  divides by \<^verbatim>\<open>info.iteration\<close>; with a zero count the quotient is NaN or infinite.
  The quotient and the products are \<^verbatim>\<open>double\<close> operations (\<^verbatim>\<open>info.stripeSum\<close> and
  \<^verbatim>\<open>info.smoothIteration\<close> are \<^verbatim>\<open>double\<close>), and the assignment to the \<^verbatim>\<open>float\<close>
  rounds once more. An overflow needs no case of its own: an overflowed value has a
  magnitude of at least \<open>2^128\<close>, and so has the value of the model; the conversion to
  \<^verbatim>\<open>int\<close> that follows is undefined for both.
\<close>

definition colorScalar :: "RenderState \<Rightarrow> ReturnInfo \<Rightarrow> fault + real" where
  "colorScalar state info =
     (if stripes state then
        (case stripeSum info of
           None \<Rightarrow> Inl NotANumber
         | Some ssum \<Rightarrow>
             if iteration info = 0 then Inl ZeroDivisor
             else Inr (round_float (round_double (stripeIntensity state
                          * round_double (ssum / real_of_int (iteration info))))))
      else
        (case smoothIteration info of
           None \<Rightarrow> Inl NotANumber
         | Some smooth \<Rightarrow> Inr (round_float (round_double (smooth * colorDensity state)))))"

text \<open>
  Index, fraction and interpolation (lines 220-222). \<^verbatim>\<open>static_cast<int>(iterations)\<close> is
  converted to \<^verbatim>\<open>size_t\<close> before \<^verbatim>\<open>%\<close>, since \<^verbatim>\<open>palette.size()\<close> is unsigned.
  \<^verbatim>\<open>std::floor\<close> of a \<^verbatim>\<open>float\<close> is a \<^verbatim>\<open>float\<close> and exact; the subtraction is a
  \<^verbatim>\<open>float\<close> operation, and its result is widened to \<^verbatim>\<open>double\<close> without change.
\<close>

definition paletteLookup :: "Color list \<Rightarrow> real \<Rightarrow> fault + Color" where
  "paletteLookup palette iterations =
     (if palette = [] then Inl ZeroDivisor
      else
        (case static_cast_int iterations of
           Inl e \<Rightarrow> Inl e
         | Inr k \<Rightarrow>
             (let index = int (to_size_t k mod length palette);
                  fract = round_float (iterations - real_of_int \<lfloor>iterations\<rfloor>)
              in Inr (interpolateColors (palette ! nat index)
                        (palette ! (to_size_t (index + 1) mod length palette)) fract))))"

definition shadePixel :: "RenderState \<Rightarrow> Color list \<Rightarrow> ReturnInfo \<Rightarrow> fault + Color" where
  "shadePixel state palette info =
     (if iteration info = - 1 then Inr (sfColor 0 0 0)
      else
        (case colorScalar state info of
           Inl e \<Rightarrow> Inl e
         | Inr iterations \<Rightarrow> paletteLookup palette iterations))"

subsection \<open>The pixel buffer\<close>

text \<open>
  The caller-owned buffer \<^verbatim>\<open>sf::Uint8* pixels\<close> is a store from byte offsets to bytes;
  it has no bounds of its own, and the offsets are unbounded integers.
  The four writes of one pixel (lines 225-229, 272-276); alpha is the constant 255.
\<close>

type_synonym PixelBuffer = "int \<Rightarrow> Uint8"

definition writePixel :: "PixelBuffer \<Rightarrow> int \<Rightarrow> Color \<Rightarrow> PixelBuffer" where
  "writePixel pixels pixelIndex color =
     pixels(pixelIndex := chan_r color, pixelIndex + 1 := chan_g color,
            pixelIndex + 2 := chan_b color, pixelIndex + 3 := 255)"

subsection \<open>renderFractalRegion (lines 192-232)\<close>

text \<open>The loop over \<^verbatim>\<open>x\<close> (lines 200-230), from the current \<^verbatim>\<open>x\<close>.\<close>

function regionCols ::
  "RenderState \<Rightarrow> Color list \<Rightarrow> real \<Rightarrow> real \<Rightarrow> real \<Rightarrow> int \<Rightarrow> int \<Rightarrow> int \<Rightarrow> PixelBuffer
     \<Rightarrow> fault + PixelBuffer" where
  "regionCols state palette pixelSize halfSize ci width y x pixels =
     (if x < width then
        (let cr = viewportX state - halfSize + real_of_int x * pixelSize in
         case calculateFractal cr ci (juliaX state) (juliaY state) (maxIterations state)
                (showJulia state) (fractalType state) (stripes state)
                (stripeFrequency state) (innerCalculation state) of
           Inl e \<Rightarrow> Inl e
         | Inr info \<Rightarrow>
             (case shadePixel state palette info of
                Inl e \<Rightarrow> Inl e
              | Inr color \<Rightarrow>
                  regionCols state palette pixelSize halfSize ci width y (x + 1)
                    (writePixel pixels ((y * width + x) * 4) color)))
      else Inr pixels)"
  by pat_completeness auto
termination
  by (relation "measure (\<lambda>(state, palette, pixelSize, halfSize, ci, width, y, x, pixels).
        nat (width - x))") auto

text \<open>The loop over \<^verbatim>\<open>y\<close> (lines 197-231), from the current \<^verbatim>\<open>y\<close>.\<close>

function regionRows ::
  "RenderState \<Rightarrow> Color list \<Rightarrow> real \<Rightarrow> real \<Rightarrow> int \<Rightarrow> int \<Rightarrow> int \<Rightarrow> PixelBuffer
     \<Rightarrow> fault + PixelBuffer" where
  "regionRows state palette pixelSize halfSize endY width y pixels =
     (if y < endY then
        (let ci = viewportY state - halfSize + real_of_int y * pixelSize in
         case regionCols state palette pixelSize halfSize ci width y 0 pixels of
           Inl e \<Rightarrow> Inl e
         | Inr pixels' \<Rightarrow>
             regionRows state palette pixelSize halfSize endY width (y + 1) pixels')
      else Inr pixels)"
  by pat_completeness auto
termination
  by (relation "measure (\<lambda>(state, palette, pixelSize, halfSize, endY, width, y, pixels).
        nat (endY - y))") auto

definition renderFractalRegion ::
  "PixelBuffer \<Rightarrow> RenderState \<Rightarrow> int \<Rightarrow> int \<Rightarrow> int \<Rightarrow> int \<Rightarrow> fault + PixelBuffer" where
  "renderFractalRegion pixels state startY endY width height =
     (let pixelSize = viewportSize state / real_of_int width;
          halfSize = viewportSize state / 2;
          palette = PALETTES ! (to_size_t (colorScheme state) mod length PALETTES)
      in regionRows state palette pixelSize halfSize endY width startY pixels)"

subsection \<open>renderPreview (lines 235-281)\<close>

text \<open>The block fill (lines 270-278): the loop over \<^verbatim>\<open>bx\<close>, then the loop over \<^verbatim>\<open>by\<close>.\<close>

function fillCols ::
  "PixelBuffer \<Rightarrow> Color \<Rightarrow> int \<Rightarrow> int \<Rightarrow> int \<Rightarrow> int \<Rightarrow> int \<Rightarrow> int \<Rightarrow> PixelBuffer" where
  "fillCols pixels color width downscale x y bY bX =
     (if bX < downscale \<and> x + bX < width then
        fillCols (writePixel pixels (((y + bY) * width + (x + bX)) * 4) color)
          color width downscale x y bY (bX + 1)
      else pixels)"
  by pat_completeness auto
termination
  by (relation "measure (\<lambda>(pixels, color, width, downscale, x, y, bY, bX).
        nat (downscale - bX))") auto

function fillRows ::
  "PixelBuffer \<Rightarrow> Color \<Rightarrow> int \<Rightarrow> int \<Rightarrow> int \<Rightarrow> int \<Rightarrow> int \<Rightarrow> int \<Rightarrow> PixelBuffer" where
  "fillRows pixels color width height downscale x y bY =
     (if bY < downscale \<and> y + bY < height then
        fillRows (fillCols pixels color width downscale x y bY 0)
          color width height downscale x y (bY + 1)
      else pixels)"
  by pat_completeness auto
termination
  by (relation "measure (\<lambda>(pixels, color, width, height, downscale, x, y, bY).
        nat (downscale - bY))") auto

text \<open>
  The loop over \<^verbatim>\<open>x\<close> with stride \<^verbatim>\<open>downscale\<close> (lines 243-279). With a stride that is
  not positive \<^verbatim>\<open>x\<close> stays below \<^verbatim>\<open>width\<close> and the loop does not return.
\<close>

function previewCols ::
  "RenderState \<Rightarrow> Color list \<Rightarrow> real \<Rightarrow> real \<Rightarrow> real \<Rightarrow> int \<Rightarrow> int \<Rightarrow> int \<Rightarrow> int \<Rightarrow> int
     \<Rightarrow> PixelBuffer \<Rightarrow> fault + PixelBuffer" where
  "previewCols state palette pixelSize halfSize ci width height downscale y x pixels =
     (if x < width then
        (let cr = viewportX state - halfSize + real_of_int x * pixelSize in
         case calculateFractal cr ci (juliaX state) (juliaY state) (maxIterations state)
                (showJulia state) (fractalType state) (stripes state)
                (stripeFrequency state) (innerCalculation state) of
           Inl e \<Rightarrow> Inl e
         | Inr info \<Rightarrow>
             (case shadePixel state palette info of
                Inl e \<Rightarrow> Inl e
              | Inr color \<Rightarrow>
                  if downscale \<le> 0 then Inl NonTermination
                  else previewCols state palette pixelSize halfSize ci width height downscale
                         y (x + downscale)
                         (fillRows pixels color width height downscale x y 0)))
      else Inr pixels)"
  by pat_completeness auto
termination
  by (relation "measure (\<lambda>(state, palette, pixelSize, halfSize, ci, width, height, downscale,
        y, x, pixels). nat (width - x))") auto

text \<open>The loop over \<^verbatim>\<open>y\<close> with stride \<^verbatim>\<open>downscale\<close> (lines 240-280).\<close>

function previewRows ::
  "RenderState \<Rightarrow> Color list \<Rightarrow> real \<Rightarrow> real \<Rightarrow> int \<Rightarrow> int \<Rightarrow> int \<Rightarrow> int
     \<Rightarrow> PixelBuffer \<Rightarrow> fault + PixelBuffer" where
  "previewRows state palette pixelSize halfSize width height downscale y pixels =
     (if y < height then
        (let ci = viewportY state - halfSize + real_of_int y * pixelSize in
         case previewCols state palette pixelSize halfSize ci width height downscale y 0
                pixels of
           Inl e \<Rightarrow> Inl e
         | Inr pixels' \<Rightarrow>
             if downscale \<le> 0 then Inl NonTermination
             else previewRows state palette pixelSize halfSize width height downscale
                    (y + downscale) pixels')
      else Inr pixels)"
  by pat_completeness auto
termination
  by (relation "measure (\<lambda>(state, palette, pixelSize, halfSize, width, height, downscale,
        y, pixels). nat (height - y))") auto

definition renderPreview ::
  "PixelBuffer \<Rightarrow> RenderState \<Rightarrow> int \<Rightarrow> int \<Rightarrow> int \<Rightarrow> fault + PixelBuffer" where
  "renderPreview pixels state width height downscale =
     (let pixelSize = viewportSize state / real_of_int width;
          halfSize = viewportSize state / 2;
          palette = PALETTES ! (to_size_t (colorScheme state) mod length PALETTES)
      in previewRows state palette pixelSize halfSize width height downscale 0 pixels)"

subsection \<open>renderFractal (lines 171-189)\<close>

text \<open>
  \<^verbatim>\<open>NUM_THREADS\<close> is fixed when the program starts (line 20: the hardware concurrency,
  or 8), so it is a parameter here. The worker threads write disjoint rows and are
  joined before the function returns; the model runs the bands one after the other in
  the order in which the source starts them (lines 179-183).
\<close>

function renderBands ::
  "int \<Rightarrow> PixelBuffer \<Rightarrow> RenderState \<Rightarrow> int \<Rightarrow> int \<Rightarrow> int \<Rightarrow> int \<Rightarrow> fault + PixelBuffer" where
  "renderBands NUM_THREADS pixels state width height linesPerThread n =
     (if n < NUM_THREADS then
        (let startY = n * linesPerThread;
             endY = (if n = NUM_THREADS - 1 then height else (n + 1) * linesPerThread)
         in case renderFractalRegion pixels state startY endY width height of
              Inl e \<Rightarrow> Inl e
            | Inr pixels' \<Rightarrow>
                renderBands NUM_THREADS pixels' state width height linesPerThread (n + 1))
      else Inr pixels)"
  by pat_completeness auto
termination
  by (relation "measure (\<lambda>(NUM_THREADS, pixels, state, width, height, linesPerThread, n).
        nat (NUM_THREADS - n))") auto

definition renderFractal ::
  "int \<Rightarrow> PixelBuffer \<Rightarrow> RenderState \<Rightarrow> int \<Rightarrow> int \<Rightarrow> bool \<Rightarrow> fault + PixelBuffer" where
  "renderFractal NUM_THREADS pixels state width height usePreview =
     (if usePreview then renderPreview pixels state width height PREVIEW_DOWNSCALE
      else if NUM_THREADS = 0 then Inl ZeroDivisor
      else
        (let linesPerThread = height sdiv NUM_THREADS
         in renderBands NUM_THREADS pixels state width height linesPerThread 0))"

subsection \<open>adjustIterations (lines 385-391)\<close>

text \<open>
  The first argument is the \<^verbatim>\<open>log10\<close> of the C library. The quotient, the sum and the
  product are \<^verbatim>\<open>double\<close> operations. \<^verbatim>\<open>3.0 / state.viewportSize\<close> with a zero size,
  or with a size so small that the quotient overflows, is an infinity, which
  \<^verbatim>\<open>1 + zoomFactor\<close>, \<^verbatim>\<open>log10\<close> and the product hand on (as an infinity or a NaN) to
  the conversion to \<^verbatim>\<open>int\<close>; \<^verbatim>\<open>log10\<close> of a number that is not positive does the same.
  The conversion is then undefined.
\<close>

definition adjustIterations :: "(real \<Rightarrow> real) \<Rightarrow> RenderState \<Rightarrow> fault + RenderState" where
  "adjustIterations log10_lib state =
     (if autoIterations state then
        (if viewportSize state = 0 then Inl ZeroDivisor
         else
           (let zoomFactor = round_double (3.0 / viewportSize state) in
            if \<not> finite_double zoomFactor then Inl IntCastRange
            else
              (let arg = round_double (1 + zoomFactor) in
               if arg \<le> 0 then Inl NotANumber
               else
                 (case static_cast_int (round_double (100 * log10_lib arg)) of
                    Inl e \<Rightarrow> Inl e
                  | Inr n \<Rightarrow>
                      (let state1 = state\<lparr>maxIterations := min 10000 n\<rparr>
                       in Inr (state1\<lparr>maxIterations := max 100 (maxIterations state1)\<rparr>))))))
      else Inr state)"

section \<open>Properties of the iteration loop\<close>

text \<open>
  The recursive equations of the loops are unfolded by hand, one pass at a time.
\<close>

declare regionCols.simps [simp del] regionRows.simps [simp del] fillCols.simps [simp del]
  fillRows.simps [simp del] previewCols.simps [simp del] previewRows.simps [simp del]
  renderBands.simps [simp del]

subsection \<open>One pass and several passes\<close>

lemma loopBody_i: "lv_i (loopBody a b ft sp sf s) = lv_i s + 1"
  by (simp add: loopBody_def Let_def)

lemma loopBody_stripeSum:
  "lv_stripeSum (loopBody a b ft sp sf s) =
     lv_stripeSum s + (if sp then stripeTerm sf (loopBody a b ft sp sf s) else 0)"
  by (simp add: loopBody_def Let_def stripeTerm_def)

lemma funpow_loopBody_i: "lv_i ((loopBody a b ft sp sf ^^ k) s) = lv_i s + int k"
  by (induction k) (simp_all add: loopBody_i)

lemma funpow_loopBody_stripeSum:
  "lv_stripeSum ((loopBody a b ft sp sf ^^ k) s) =
     lv_stripeSum s
       + (if sp then (\<Sum>j<k. stripeTerm sf ((loopBody a b ft sp sf ^^ Suc j) s)) else 0)"
  by (induction k) (simp_all add: loopBody_stripeSum)

lemma mainLoop_run:
  "nat (m - lv_i s) = n \<Longrightarrow> lv_i s < m \<Longrightarrow>
   \<exists>k\<le>n. (\<forall>j<k. lv_zr2 ((loopBody a b ft sp sf ^^ j) s) + lv_zi2 ((loopBody a b ft sp sf ^^ j) s)
               < ESCAPE_RADIUS_SQUARED)
     \<and> (if k = n
        then mainLoop a b m ft sp sf inner s =
               Some (if inner then detailInfo ((loopBody a b ft sp sf ^^ k) s) else sentinelInfo)
        else \<not> lv_zr2 ((loopBody a b ft sp sf ^^ k) s) + lv_zi2 ((loopBody a b ft sp sf ^^ k) s)
                 < ESCAPE_RADIUS_SQUARED
             \<and> mainLoop a b m ft sp sf inner s = Some (detailInfo ((loopBody a b ft sp sf ^^ k) s)))"
proof (induction n arbitrary: s)
  case 0
  then show ?case by simp
next
  case (Suc n)
  let ?B = "loopBody a b ft sp sf"
  let ?g = "\<lambda>t. lv_zr2 t + lv_zi2 t < ESCAPE_RADIUS_SQUARED"
  show ?case
  proof (cases "?g s")
    case False
    then have "mainLoop a b m ft sp sf inner s = Some (detailInfo s)"
      by (subst mainLoop.simps) simp
    with False show ?thesis by (intro exI[of _ 0]) simp
  next
    case True
    have i': "lv_i (?B s) = lv_i s + 1" by (rule loopBody_i)
    show ?thesis
    proof (cases "lv_i (?B s) = m")
      case eq: True
      then have n0: "n = 0" using Suc.prems(1) i' by simp
      have "mainLoop a b m ft sp sf inner s =
              Some (if inner then detailInfo (?B s) else sentinelInfo)"
        using True eq by (subst mainLoop.simps) (simp add: Let_def)
      with True n0 show ?thesis by (intro exI[of _ 1]) simp
    next
      case ne: False
      have lt: "lv_i (?B s) < m" using ne i' Suc.prems(2) by simp
      have "nat (m - lv_i (?B s)) = n" using Suc.prems(1) i' by simp
      from Suc.IH[OF this lt] obtain k where k: "k \<le> n"
        and before: "\<forall>j<k. ?g ((?B ^^ j) (?B s))"
        and res: "if k = n
          then mainLoop a b m ft sp sf inner (?B s) =
                 Some (if inner then detailInfo ((?B ^^ k) (?B s)) else sentinelInfo)
          else \<not> ?g ((?B ^^ k) (?B s))
               \<and> mainLoop a b m ft sp sf inner (?B s) = Some (detailInfo ((?B ^^ k) (?B s)))"
        by blast
      have step: "mainLoop a b m ft sp sf inner s = mainLoop a b m ft sp sf inner (?B s)"
        using True ne by (subst mainLoop.simps) (simp add: Let_def)
      have shift: "(?B ^^ Suc j) s = (?B ^^ j) (?B s)" for j
        by (simp add: funpow_swap1)
      have "\<forall>j<Suc k. ?g ((?B ^^ j) s)"
      proof (intro allI impI)
        fix j assume "j < Suc k"
        show "?g ((?B ^^ j) s)"
        proof (cases j)
          case 0
          with True show ?thesis by simp
        next
          case (Suc j')
          with \<open>j < Suc k\<close> before have "?g ((?B ^^ j') (?B s))" by simp
          then show ?thesis unfolding Suc shift .
        qed
      qed
      moreover have "if Suc k = Suc n
          then mainLoop a b m ft sp sf inner s =
                 Some (if inner then detailInfo ((?B ^^ Suc k) s) else sentinelInfo)
          else \<not> ?g ((?B ^^ Suc k) s)
               \<and> mainLoop a b m ft sp sf inner s = Some (detailInfo ((?B ^^ Suc k) s))"
        using res unfolding step shift by simp
      ultimately show ?thesis using k by (intro exI[of _ "Suc k"]) simp
    qed
  qed
qed

lemma mainLoop_cap_mono:
  "nat (m1 - lv_i s) = n \<Longrightarrow> lv_i s < m1 \<Longrightarrow> m1 \<le> m2 \<Longrightarrow>
   mainLoop a b m1 ft sp sf inner s = Some r \<Longrightarrow> iteration r \<noteq> - 1 \<Longrightarrow> iteration r < m1 \<Longrightarrow>
   mainLoop a b m2 ft sp sf inner s = Some r"
proof (induction n arbitrary: s)
  case 0
  then show ?case by simp
next
  case (Suc n)
  let ?s' = "loopBody a b ft sp sf s"
  show ?case
  proof (cases "lv_zr2 s + lv_zi2 s < ESCAPE_RADIUS_SQUARED")
    case False
    with Suc.prems(4) show ?thesis
      by (subst mainLoop.simps, subst (asm) mainLoop.simps) simp
  next
    case True
    have i': "lv_i ?s' = lv_i s + 1" by (rule loopBody_i)
    show ?thesis
    proof (cases "lv_i ?s' = m1")
      case eq: True
      from Suc.prems(4) True eq have "r = (if inner then detailInfo ?s' else sentinelInfo)"
        by (subst (asm) mainLoop.simps) (simp add: Let_def split: if_splits)
      with eq Suc.prems(5,6) show ?thesis
        by (simp add: detailInfo_def sentinelInfo_def split: if_splits)
    next
      case ne: False
      from Suc.prems(4) True ne have rec: "mainLoop a b m1 ft sp sf inner ?s' = Some r"
        by (subst (asm) mainLoop.simps) (simp add: Let_def)
      have lt: "lv_i ?s' < m1" using ne i' Suc.prems(2) by simp
      have "nat (m1 - lv_i ?s') = n" using Suc.prems(1) i' by simp
      from Suc.IH[OF this lt Suc.prems(3) rec Suc.prems(5,6)]
      have "mainLoop a b m2 ft sp sf inner ?s' = Some r" .
      moreover have "lv_i ?s' \<noteq> m2" using lt Suc.prems(3) by simp
      ultimately show ?thesis using True
        by (subst mainLoop.simps) (simp add: Let_def)
    qed
  qed
qed

lemma calculateFractal_loop:
  "\<not> (inner \<and> \<not> isJulia \<and> ftype = 0 \<and> (cardioidTest cr ci \<or> bulbTest cr ci)) \<Longrightarrow>
   calculateFractal cr ci jr ji maxIter isJulia ftype strp sfreq inner =
     (case mainLoop (if isJulia then jr else cr) (if isJulia then ji else ci) maxIter ftype
             strp sfreq inner (loopEntry cr ci isJulia) of
        None \<Rightarrow> Inl NonTermination
      | Some info \<Rightarrow> Inr info)"
  by (auto simp add: calculateFractal_def Let_def)

lemma loopEntry_counters: "lv_i (loopEntry cr ci isJulia) = 0"
  "lv_stripeSum (loopEntry cr ci isJulia) = 0"
  by (simp_all add: loopEntry_def Let_def)

lemma mainLoop_returns:
  assumes "lv_i s < m"
  shows "\<exists>r. mainLoop a b m ftype strp sfreq inner s = Some r"
proof -
  from mainLoop_run[OF refl assms, of a b ftype strp sfreq inner]
  obtain k where "if k = nat (m - lv_i s)
        then mainLoop a b m ftype strp sfreq inner s =
               Some (if inner then detailInfo ((loopBody a b ftype strp sfreq ^^ k) s)
                     else sentinelInfo)
        else \<not> lv_zr2 ((loopBody a b ftype strp sfreq ^^ k) s)
                 + lv_zi2 ((loopBody a b ftype strp sfreq ^^ k) s) < ESCAPE_RADIUS_SQUARED
             \<and> mainLoop a b m ftype strp sfreq inner s =
                 Some (detailInfo ((loopBody a b ftype strp sfreq ^^ k) s))"
    by blast
  then show ?thesis by (cases "k = nat (m - lv_i s)") simp_all
qed

lemma calculateFractal_returns:
  assumes "0 < maxIter"
  shows "\<exists>r. calculateFractal cr ci jr ji maxIter isJulia ftype strp sfreq inner = Inr r"
proof (cases "inner \<and> \<not> isJulia \<and> ftype = 0 \<and> (cardioidTest cr ci \<or> bulbTest cr ci)")
  case True
  then show ?thesis by (auto simp: calculateFractal_def Let_def)
next
  case False
  have "lv_i (loopEntry cr ci isJulia) < maxIter" using assms by (simp add: loopEntry_counters)
  from mainLoop_returns[OF this]
  obtain r where "mainLoop (if isJulia then jr else cr) (if isJulia then ji else ci) maxIter
      ftype strp sfreq inner (loopEntry cr ci isJulia) = Some r"
    by blast
  then show ?thesis by (simp add: calculateFractal_loop[OF False])
qed

subsection \<open>Monotonicity in the iteration cap\<close>

text \<open>
  Claim C7. If \<^verbatim>\<open>calculateFractal\<close> with cap \<open>m1\<close> returns an escaped result (an
  iteration count \<open>i\<close> with \<open>0 \<le> i < m1\<close>; a return at the cap has the count \<open>m1\<close>
  or the sentinel \<open>-1\<close>), then with every cap \<open>m2 \<ge> m1\<close> it returns the same
  \<^verbatim>\<open>ReturnInfo\<close>: the same classification and the same iteration count.
\<close>

theorem calculateFractal_cap_monotone:
  assumes run: "calculateFractal cr ci jr ji m1 isJulia ftype strp sfreq inner = Inr r"
    and nonneg: "0 \<le> iteration r" and below: "iteration r < m1" and le: "m1 \<le> m2"
  shows "calculateFractal cr ci jr ji m2 isJulia ftype strp sfreq inner = Inr r"
proof -
  define a where "a = (if isJulia then jr else cr)"
  define b where "b = (if isJulia then ji else ci)"
  let ?s0 = "loopEntry cr ci isJulia"
  have late: "\<not> (inner \<and> \<not> isJulia \<and> ftype = 0 \<and> (cardioidTest cr ci \<or> bulbTest cr ci))"
    using run nonneg
    by (auto simp: calculateFractal_def Let_def sentinelInfo_def split: if_splits)
  have unfold: "calculateFractal cr ci jr ji m isJulia ftype strp sfreq inner =
      (case mainLoop a b m ftype strp sfreq inner ?s0 of
         None \<Rightarrow> Inl NonTermination | Some info \<Rightarrow> Inr info)" for m
    unfolding a_def b_def by (rule calculateFractal_loop[OF late])
  from run have loop1: "mainLoop a b m1 ftype strp sfreq inner ?s0 = Some r"
    by (simp add: unfold split: option.splits)
  have "lv_i ?s0 < m1" using nonneg below by (simp add: loopEntry_counters)
  moreover have "iteration r \<noteq> - 1" using nonneg by simp
  ultimately have "mainLoop a b m2 ftype strp sfreq inner ?s0 = Some r"
    using mainLoop_cap_mono[OF refl _ le loop1 _ below] by blast
  then show ?thesis by (simp add: unfold)
qed

theorem calculateFractal_cap_monotone_witness:
  "calculateFractal 2 2 0 0 100 False 0 False 5 False =
     Inr \<lparr>iteration = 3, smoothIteration = Some (4 - ln (ln 10600 / 2) / ln 2),
          stripeSum = Some 0\<rparr>
   \<and> (0::int) \<le> 3 \<and> (3::int) < 100 \<and> (100::int) \<le> 10000
   \<and> calculateFractal 2 2 0 0 10000 False 0 False 5 False =
     Inr \<lparr>iteration = 3, smoothIteration = Some (4 - ln (ln 10600 / 2) / ln 2),
          stripeSum = Some 0\<rparr>"
proof -
  have run: "calculateFractal 2 2 0 0 100 False 0 False 5 False =
     Inr \<lparr>iteration = 3, smoothIteration = Some (4 - ln (ln 10600 / 2) / ln 2),
          stripeSum = Some 0\<rparr>"
    apply (simp add: calculateFractal_def loopEntry_def Let_def)
    apply (subst mainLoop.simps, simp add: loopBody_def Let_def ESCAPE_RADIUS_SQUARED_def)
    apply (subst mainLoop.simps, simp add: loopBody_def Let_def ESCAPE_RADIUS_SQUARED_def)
    apply (subst mainLoop.simps, simp add: loopBody_def Let_def ESCAPE_RADIUS_SQUARED_def)
    apply (subst mainLoop.simps,
        simp add: ESCAPE_RADIUS_SQUARED_def detailInfo_def smoothFormula_def)
    done
  from calculateFractal_cap_monotone[OF run, of 10000] run show ?thesis by simp
qed

subsection \<open>Termination of the main loop\<close>

text \<open>
  Claim C9. With \<^verbatim>\<open>maxIter\<close> in [100, 10000] the main loop of \<^verbatim>\<open>calculateFractal\<close>
  returns after some number \<open>k \<le> maxIter\<close> of passes: the loop condition held before
  each of the \<open>k\<close> passes; either \<open>k = maxIter\<close> and the return is the one at the cap,
  or \<open>k < maxIter\<close> and the loop condition failed after \<open>k\<close> passes (escape); the
  counter is \<open>k\<close>, and \<^verbatim>\<open>stripeSum\<close> is the sum of exactly one term for each of the
  \<open>k\<close> passes taken.
\<close>

theorem mainLoop_terminates:
  assumes lo: "100 \<le> maxIter" and hi: "maxIter \<le> 10000"
  shows "(\<exists>r. calculateFractal cr ci jr ji maxIter isJulia ftype strp sfreq inner = Inr r)
   \<and> (\<exists>k\<le>nat maxIter.
      (\<forall>j<k. lv_zr2 ((loopBody a b ftype strp sfreq ^^ j) (loopEntry cr ci isJulia))
               + lv_zi2 ((loopBody a b ftype strp sfreq ^^ j) (loopEntry cr ci isJulia))
               < ESCAPE_RADIUS_SQUARED)
    \<and> (if k = nat maxIter
       then mainLoop a b maxIter ftype strp sfreq inner (loopEntry cr ci isJulia) =
              Some (if inner
                    then detailInfo ((loopBody a b ftype strp sfreq ^^ k) (loopEntry cr ci isJulia))
                    else sentinelInfo)
       else \<not> lv_zr2 ((loopBody a b ftype strp sfreq ^^ k) (loopEntry cr ci isJulia))
                + lv_zi2 ((loopBody a b ftype strp sfreq ^^ k) (loopEntry cr ci isJulia))
                < ESCAPE_RADIUS_SQUARED
            \<and> mainLoop a b maxIter ftype strp sfreq inner (loopEntry cr ci isJulia) =
                Some (detailInfo ((loopBody a b ftype strp sfreq ^^ k) (loopEntry cr ci isJulia))))
    \<and> lv_i ((loopBody a b ftype strp sfreq ^^ k) (loopEntry cr ci isJulia)) = int k
    \<and> lv_stripeSum ((loopBody a b ftype strp sfreq ^^ k) (loopEntry cr ci isJulia)) =
        (if strp
         then (\<Sum>j<k. stripeTerm sfreq
                        ((loopBody a b ftype strp sfreq ^^ Suc j) (loopEntry cr ci isJulia)))
         else 0))"
proof -
  let ?s0 = "loopEntry cr ci isJulia"
  have ret: "\<exists>r. calculateFractal cr ci jr ji maxIter isJulia ftype strp sfreq inner = Inr r"
    using lo by (intro calculateFractal_returns) simp
  have n: "nat (maxIter - lv_i ?s0) = nat maxIter" and lt: "lv_i ?s0 < maxIter"
    using lo by (simp_all add: loopEntry_counters)
  from mainLoop_run[OF n lt, of a b ftype strp sfreq inner]
  obtain k where "k \<le> nat maxIter"
    and "\<forall>j<k. lv_zr2 ((loopBody a b ftype strp sfreq ^^ j) ?s0)
               + lv_zi2 ((loopBody a b ftype strp sfreq ^^ j) ?s0) < ESCAPE_RADIUS_SQUARED"
    and "if k = nat maxIter
       then mainLoop a b maxIter ftype strp sfreq inner ?s0 =
              Some (if inner then detailInfo ((loopBody a b ftype strp sfreq ^^ k) ?s0)
                    else sentinelInfo)
       else \<not> lv_zr2 ((loopBody a b ftype strp sfreq ^^ k) ?s0)
                + lv_zi2 ((loopBody a b ftype strp sfreq ^^ k) ?s0) < ESCAPE_RADIUS_SQUARED
            \<and> mainLoop a b maxIter ftype strp sfreq inner ?s0 =
                Some (detailInfo ((loopBody a b ftype strp sfreq ^^ k) ?s0))"
    by blast
  moreover have "lv_i ((loopBody a b ftype strp sfreq ^^ k) ?s0) = int k"
    by (simp add: funpow_loopBody_i loopEntry_counters)
  moreover have "lv_stripeSum ((loopBody a b ftype strp sfreq ^^ k) ?s0) =
        (if strp then (\<Sum>j<k. stripeTerm sfreq ((loopBody a b ftype strp sfreq ^^ Suc j) ?s0))
         else 0)"
    by (subst funpow_loopBody_stripeSum) (simp add: loopEntry_counters)
  ultimately show ?thesis using ret by blast
qed

theorem mainLoop_terminates_witness:
  "(100::int) \<le> 128 \<and> (128::int) \<le> 10000
   \<and> (\<exists>r. calculateFractal 2 2 (- 0.8) 0.156 128 False 0 True 5 False = Inr r)
   \<and> (\<exists>k\<le>nat 128.
      (\<forall>j<k. lv_zr2 ((loopBody 2 2 0 True 5 ^^ j) (loopEntry 2 2 False))
               + lv_zi2 ((loopBody 2 2 0 True 5 ^^ j) (loopEntry 2 2 False))
               < ESCAPE_RADIUS_SQUARED)
    \<and> (if k = nat 128
       then mainLoop 2 2 128 0 True 5 False (loopEntry 2 2 False) =
              Some (if False
                    then detailInfo ((loopBody 2 2 0 True 5 ^^ k) (loopEntry 2 2 False))
                    else sentinelInfo)
       else \<not> lv_zr2 ((loopBody 2 2 0 True 5 ^^ k) (loopEntry 2 2 False))
                + lv_zi2 ((loopBody 2 2 0 True 5 ^^ k) (loopEntry 2 2 False))
                < ESCAPE_RADIUS_SQUARED
            \<and> mainLoop 2 2 128 0 True 5 False (loopEntry 2 2 False) =
                Some (detailInfo ((loopBody 2 2 0 True 5 ^^ k) (loopEntry 2 2 False))))
    \<and> lv_i ((loopBody 2 2 0 True 5 ^^ k) (loopEntry 2 2 False)) = int k
    \<and> lv_stripeSum ((loopBody 2 2 0 True 5 ^^ k) (loopEntry 2 2 False)) =
        (if True
         then (\<Sum>j<k. stripeTerm 5 ((loopBody 2 2 0 True 5 ^^ Suc j) (loopEntry 2 2 False)))
         else 0))"
proof -
  have h1: "(100::int) \<le> 128" and h2: "(128::int) \<le> 10000" by simp_all
  show ?thesis by (rule conjI[OF h1 conjI[OF h2 mainLoop_terminates[OF h1 h2]]])
qed

subsection \<open>The origin\<close>

lemma origin_step:
  assumes "lv_zr s = 0 \<and> lv_zi s = 0 \<and> lv_zr2 s = 0 \<and> lv_zi2 s = 0"
  shows "lv_zr (loopBody 0 0 0 strp sfreq s) = 0 \<and> lv_zi (loopBody 0 0 0 strp sfreq s) = 0
    \<and> lv_zr2 (loopBody 0 0 0 strp sfreq s) = 0 \<and> lv_zi2 (loopBody 0 0 0 strp sfreq s) = 0"
  using assms by (simp add: loopBody_def Let_def)

lemma origin_orbit:
  "lv_zr ((loopBody 0 0 0 strp sfreq ^^ k) (loopEntry 0 0 False)) = 0
   \<and> lv_zi ((loopBody 0 0 0 strp sfreq ^^ k) (loopEntry 0 0 False)) = 0
   \<and> lv_zr2 ((loopBody 0 0 0 strp sfreq ^^ k) (loopEntry 0 0 False)) = 0
   \<and> lv_zi2 ((loopBody 0 0 0 strp sfreq ^^ k) (loopEntry 0 0 False)) = 0"
proof (induction k)
  case 0
  show ?case by (simp add: loopEntry_def)
next
  case (Suc k)
  from origin_step[OF Suc] show ?case by (simp only: funpow.simps o_apply)
qed

lemma origin_inside:
  "lv_zr2 ((loopBody 0 0 0 strp sfreq ^^ k) (loopEntry 0 0 False))
     + lv_zi2 ((loopBody 0 0 0 strp sfreq ^^ k) (loopEntry 0 0 False)) < ESCAPE_RADIUS_SQUARED"
  by (simp only: origin_orbit) (simp add: ESCAPE_RADIUS_SQUARED_def)

text \<open>
  Claim C8. For the sample point \<open>c = (0,0)\<close> in Mandelbrot mode with the standard
  fractal type and every \<^verbatim>\<open>maxIter \<ge> 100\<close>, \<^verbatim>\<open>calculateFractal\<close> returns the interior
  sentinel: with the inner calculation enabled the cardioid test matches; with it
  disabled the main loop runs to the cap, and \<^verbatim>\<open>zr2 + zi2\<close> stays below the escape
  radius after every number of passes.
\<close>

theorem origin_is_interior:
  assumes "100 \<le> maxIter"
  shows "calculateFractal 0 0 jr ji maxIter False 0 strp sfreq inner = Inr sentinelInfo
    \<and> cardioidTest 0 0
    \<and> mainLoop 0 0 maxIter 0 strp sfreq False (loopEntry 0 0 False) = Some sentinelInfo
    \<and> (\<forall>k. lv_zr2 ((loopBody 0 0 0 strp sfreq ^^ k) (loopEntry 0 0 False))
             + lv_zi2 ((loopBody 0 0 0 strp sfreq ^^ k) (loopEntry 0 0 False))
             < ESCAPE_RADIUS_SQUARED)"
proof -
  have card: "cardioidTest 0 0" by (simp add: cardioidTest_def Let_def)
  have n: "nat (maxIter - lv_i (loopEntry 0 0 False)) = nat maxIter"
    and lt: "lv_i (loopEntry 0 0 False) < maxIter"
    using assms by (simp_all add: loopEntry_counters)
  from mainLoop_run[OF n lt, of 0 0 0 strp sfreq False]
  have loop: "mainLoop 0 0 maxIter 0 strp sfreq False (loopEntry 0 0 False) = Some sentinelInfo"
    by (auto simp: origin_inside split: if_splits)
  have "calculateFractal 0 0 jr ji maxIter False 0 strp sfreq inner = Inr sentinelInfo"
  proof (cases inner)
    case True
    with card show ?thesis by (simp add: calculateFractal_def)
  next
    case False
    with loop show ?thesis by (simp add: calculateFractal_def)
  qed
  with card loop origin_inside show ?thesis by blast
qed

theorem origin_is_interior_witness:
  "(100::int) \<le> 128
   \<and> calculateFractal 0 0 (- 0.8) 0.156 128 False 0 True 5 False = Inr sentinelInfo
   \<and> calculateFractal 0 0 (- 0.8) 0.156 128 False 0 True 5 True = Inr sentinelInfo"
proof -
  have h: "(100::int) \<le> 128" by simp
  from origin_is_interior[OF h] h show ?thesis by blast
qed

subsection \<open>An escaped result with iteration count zero\<close>

lemma julia_far_entry:
  assumes "10000 \<le> cr * cr + ci * ci"
  shows "mainLoop a b maxIter ftype strp sfreq inner (loopEntry cr ci True) =
    Some \<lparr>iteration = 0, smoothIteration = smoothFormula 0 (cr * cr + ci * ci),
          stripeSum = Some 0\<rparr>"
  using assms
  by (subst mainLoop.simps)
     (simp add: loopEntry_def Let_def ESCAPE_RADIUS_SQUARED_def detailInfo_def)

lemma shadePixel_zero_iteration:
  "stripes state \<Longrightarrow>
   shadePixel state palette \<lparr>iteration = 0, smoothIteration = sm, stripeSum = Some ssum\<rparr>
     = Inl ZeroDivisor"
  by (simp add: shadePixel_def colorScalar_def)

text \<open>
  Claim C10. In Julia mode a sample point with \<^verbatim>\<open>cr*cr + ci*ci >= 10000\<close> leaves the
  loop before the first pass: \<^verbatim>\<open>calculateFractal\<close> returns the iteration count 0, not
  the sentinel, and in stripe mode the colour scalar divides by that count. Both
  renderers reach this division when their first sample is such a point.
\<close>

theorem julia_zero_iteration_escape:
  "(10000 \<le> cr * cr + ci * ci \<longrightarrow>
      calculateFractal cr ci jr ji maxIter True ftype strp sfreq inner =
        Inr \<lparr>iteration = 0, smoothIteration = smoothFormula 0 (cr * cr + ci * ci),
             stripeSum = Some 0\<rparr>
      \<and> (stripes st \<longrightarrow>
           colorScalar st \<lparr>iteration = 0, smoothIteration = smoothFormula 0 (cr * cr + ci * ci),
             stripeSum = Some 0\<rparr> = Inl ZeroDivisor))
   \<and> (showJulia state \<and> stripes state \<and> 0 < width \<and> 0 < height
       \<and> 10000 \<le> (viewportX state - viewportSize state / 2)
                      * (viewportX state - viewportSize state / 2)
                    + (viewportY state - viewportSize state / 2)
                      * (viewportY state - viewportSize state / 2) \<longrightarrow>
      renderFractalRegion pixels state 0 height width height = Inl ZeroDivisor
      \<and> renderPreview pixels state width height downscale = Inl ZeroDivisor)"
proof (intro conjI impI)
  assume far: "10000 \<le> cr * cr + ci * ci"
  from julia_far_entry[OF far]
  show "calculateFractal cr ci jr ji maxIter True ftype strp sfreq inner =
        Inr \<lparr>iteration = 0, smoothIteration = smoothFormula 0 (cr * cr + ci * ci),
             stripeSum = Some 0\<rparr>"
    by (simp add: calculateFractal_def Let_def)
next
  assume "stripes st"
  then show "colorScalar st \<lparr>iteration = 0,
       smoothIteration = smoothFormula 0 (cr * cr + ci * ci), stripeSum = Some 0\<rparr>
     = Inl ZeroDivisor"
    by (simp add: colorScalar_def)
next
  assume a: "showJulia state \<and> stripes state \<and> 0 < width \<and> 0 < height
       \<and> 10000 \<le> (viewportX state - viewportSize state / 2)
                      * (viewportX state - viewportSize state / 2)
                    + (viewportY state - viewportSize state / 2)
                      * (viewportY state - viewportSize state / 2)"
  let ?x = "viewportX state - viewportSize state / 2"
  let ?y = "viewportY state - viewportSize state / 2"
  from a have far: "10000 \<le> ?x * ?x + ?y * ?y" by simp
  have calc: "calculateFractal ?x ?y (juliaX state) (juliaY state) (maxIterations state)
      True (fractalType state) True (stripeFrequency state)
      (innerCalculation state) =
        Inr \<lparr>iteration = 0, smoothIteration = smoothFormula 0 (?x * ?x + ?y * ?y),
             stripeSum = Some 0\<rparr>"
    using julia_far_entry[OF far] a by (simp add: calculateFractal_def Let_def)
  show "renderFractalRegion pixels state 0 height width height = Inl ZeroDivisor"
    unfolding renderFractalRegion_def Let_def
    apply (subst regionRows.simps)
    apply (subst regionCols.simps)
    using a apply (simp add: Let_def calc shadePixel_zero_iteration)
    done
  show "renderPreview pixels state width height downscale = Inl ZeroDivisor"
    unfolding renderPreview_def Let_def
    apply (subst previewRows.simps)
    apply (subst previewCols.simps)
    using a apply (simp add: Let_def calc shadePixel_zero_iteration)
    done
qed

theorem julia_zero_iteration_escape_witness:
  "(10000::real) \<le> 100 * 100 + 0 * 0
   \<and> calculateFractal 100 0 (- 0.8) 0.156 128 True 0 True 5 False =
        Inr \<lparr>iteration = 0, smoothIteration = smoothFormula 0 (100 * 100 + 0 * 0),
             stripeSum = Some 0\<rparr>
   \<and> renderFractalRegion (\<lambda>_. 0) (defaultState\<lparr>showJulia := True, viewportX := 200\<rparr>) 0 1 1 1
        = Inl ZeroDivisor
   \<and> renderPreview (\<lambda>_. 0) (defaultState\<lparr>showJulia := True, viewportX := 200\<rparr>) 1 1 12
        = Inl ZeroDivisor"
proof -
  have h: "(10000::real) \<le> 100 * 100 + 0 * 0" by simp
  note t = julia_zero_iteration_escape[where cr = 100 and ci = 0 and width = 1 and height = 1
      and state = "defaultState\<lparr>showJulia := True, viewportX := 200\<rparr>"]
  have 1: "calculateFractal 100 0 (- 0.8) 0.156 128 True 0 True 5 False =
        Inr \<lparr>iteration = 0, smoothIteration = smoothFormula 0 (100 * 100 + 0 * 0),
             stripeSum = Some 0\<rparr>"
    using t h by blast
  have 2: "renderFractalRegion (\<lambda>_. 0) (defaultState\<lparr>showJulia := True, viewportX := 200\<rparr>) 0 1 1 1
        = Inl ZeroDivisor
   \<and> renderPreview (\<lambda>_. 0) (defaultState\<lparr>showJulia := True, viewportX := 200\<rparr>) 1 1 12
        = Inl ZeroDivisor"
    using t[THEN conjunct2] by (simp add: defaultState_def)
  from h 1 2 show ?thesis by blast
qed

section \<open>Properties of the renderers\<close>

lemma regionRows_empty:
  "endY \<le> y \<Longrightarrow> regionRows state palette pixelSize halfSize endY width y pixels = Inr pixels"
  by (subst regionRows.simps) simp

lemma regionRows_split:
  "nat (mid - y) = n \<Longrightarrow> y \<le> mid \<Longrightarrow> mid \<le> endY \<Longrightarrow>
   regionRows state palette pixelSize halfSize endY width y pixels =
     (case regionRows state palette pixelSize halfSize mid width y pixels of
        Inl e \<Rightarrow> Inl e
      | Inr pixels' \<Rightarrow> regionRows state palette pixelSize halfSize endY width mid pixels')"
proof (induction n arbitrary: y pixels)
  case 0
  then have "y = mid" by simp
  then show ?case by (simp add: regionRows_empty)
next
  case (Suc n)
  then have lt: "y < mid" and lt': "y < endY" by simp_all
  have n: "nat (mid - (y + 1)) = n" using Suc.prems(1) by simp
  have le: "y + 1 \<le> mid" using lt by simp
  let ?ci = "viewportY state - halfSize + real_of_int y * pixelSize"
  have u1: "regionRows state palette pixelSize halfSize endY width y pixels =
      (case regionCols state palette pixelSize halfSize ?ci width y 0 pixels of
         Inl e \<Rightarrow> Inl e
       | Inr pixels' \<Rightarrow> regionRows state palette pixelSize halfSize endY width (y + 1) pixels')"
    using lt' by (subst regionRows.simps) (simp add: Let_def)
  have u2: "regionRows state palette pixelSize halfSize mid width y pixels =
      (case regionCols state palette pixelSize halfSize ?ci width y 0 pixels of
         Inl e \<Rightarrow> Inl e
       | Inr pixels' \<Rightarrow> regionRows state palette pixelSize halfSize mid width (y + 1) pixels')"
    using lt by (subst regionRows.simps) (simp add: Let_def)
  show ?case
  proof (cases "regionCols state palette pixelSize halfSize ?ci width y 0 pixels")
    case (Inl e)
    then show ?thesis by (simp add: u1 u2)
  next
    case (Inr pixels')
    then show ?thesis using Suc.IH[OF n le Suc.prems(3), of pixels'] by (simp add: u1 u2)
  qed
qed

lemma renderFractalRegion_empty:
  "endY \<le> startY \<Longrightarrow> renderFractalRegion pixels state startY endY width height = Inr pixels"
  by (simp add: renderFractalRegion_def Let_def regionRows_empty)

lemma renderFractalRegion_split:
  "startY \<le> mid \<Longrightarrow> mid \<le> endY \<Longrightarrow>
   renderFractalRegion pixels state startY endY width height =
     (case renderFractalRegion pixels state startY mid width height of
        Inl e \<Rightarrow> Inl e
      | Inr pixels' \<Rightarrow> renderFractalRegion pixels' state mid endY width height)"
  unfolding renderFractalRegion_def Let_def
  by (rule regionRows_split[OF refl])

lemma renderBands_tiles:
  "nat (N - 1 - n) = d \<Longrightarrow> 0 \<le> n \<Longrightarrow> n \<le> N - 1 \<Longrightarrow> 0 \<le> l \<Longrightarrow> (N - 1) * l \<le> height \<Longrightarrow>
   renderBands N pixels state width height l n =
     renderFractalRegion pixels state (n * l) height width height"
proof (induction d arbitrary: n pixels)
  case 0
  then have n: "n = N - 1" by simp
  have "renderBands N pixels' state width height l (n + 1) = Inr pixels'" for pixels'
    using n by (subst renderBands.simps) simp
  then show ?case
    using n by (subst renderBands.simps) (simp add: Let_def split: sum.splits)
next
  case (Suc d)
  then have lt: "n < N - 1" by simp
  have d: "nat (N - 1 - (n + 1)) = d" using Suc.prems(1) by simp
  have a: "n * l \<le> (n + 1) * l" using Suc.prems(4) by (simp add: algebra_simps)
  have "(n + 1) * l \<le> (N - 1) * l"
    using lt Suc.prems(4) by (intro mult_right_mono) simp_all
  then have b: "(n + 1) * l \<le> height" using Suc.prems(5) by simp
  have IH: "renderBands N pixels' state width height l (n + 1) =
     renderFractalRegion pixels' state ((n + 1) * l) height width height" for pixels'
    using Suc.IH[OF d _ _ Suc.prems(4,5)] lt Suc.prems(2) by simp
  have u: "renderBands N pixels state width height l n =
      (case renderFractalRegion pixels state (n * l) ((n + 1) * l) width height of
         Inl e \<Rightarrow> Inl e
       | Inr pixels' \<Rightarrow> renderBands N pixels' state width height l (n + 1))"
    using lt by (subst renderBands.simps) (simp add: Let_def)
  show ?case
  proof (cases "renderFractalRegion pixels state (n * l) ((n + 1) * l) width height")
    case (Inl e)
    then show ?thesis by (simp add: u renderFractalRegion_split[OF a b])
  next
    case (Inr pixels')
    then show ?thesis by (simp add: u IH renderFractalRegion_split[OF a b, of pixels])
  qed
qed

lemma renderBands_all_empty:
  "nat (N - n) = d \<Longrightarrow> 0 \<le> n \<Longrightarrow> l \<le> 0 \<Longrightarrow> height \<le> (N - 1) * l \<Longrightarrow>
   renderBands N pixels state width height l n = Inr pixels"
proof (induction d arbitrary: n)
  case 0
  then show ?case by (subst renderBands.simps) simp
next
  case (Suc d)
  then have lt: "n < N" by simp
  have d: "nat (N - (n + 1)) = d" using Suc.prems(1) by simp
  have a: "(n + 1) * l \<le> n * l" using Suc.prems(3) by (simp add: algebra_simps)
  have IH: "renderBands N pixels state width height l (n + 1) = Inr pixels"
    using Suc.IH[OF d _ Suc.prems(3,4)] Suc.prems(2) by simp
  show ?case
    apply (subst renderBands.simps)
    using lt a Suc.prems(4)
    apply (simp add: Let_def IH renderFractalRegion_empty)
    done
qed

lemma sdiv_tiles_nonneg:
  fixes N height :: int
  assumes "1 \<le> N" "0 \<le> height"
  shows "0 \<le> height sdiv N" "(N - 1) * (height sdiv N) \<le> height"
proof -
  have eq: "height sdiv N = height div N"
    using assms by (cases "height = 0") (simp_all add: signed_divide_int_def sgn_if)
  show "0 \<le> height sdiv N" using assms by (simp add: eq pos_imp_zdiv_nonneg_iff)
  have "(N - 1) * (height div N) \<le> N * (height div N)"
    using assms by (intro mult_right_mono) (simp_all add: pos_imp_zdiv_nonneg_iff)
  also have "\<dots> \<le> height"
  proof -
    have "N * (height div N) + height mod N = height" by simp
    moreover have "0 \<le> height mod N" using assms by simp
    ultimately show ?thesis by linarith
  qed
  finally show "(N - 1) * (height sdiv N) \<le> height" by (simp add: eq)
qed

lemma sdiv_tiles_neg:
  fixes N height :: int
  assumes "1 \<le> N" "height < 0"
  shows "height sdiv N \<le> 0" "height \<le> (N - 1) * (height sdiv N)"
proof -
  have eq: "height sdiv N = - ((- height) div N)"
    using assms by (simp add: signed_divide_int_def sgn_if)
  have nn: "0 \<le> (- height) div N" using assms by (simp add: pos_imp_zdiv_nonneg_iff)
  show "height sdiv N \<le> 0" using nn by (simp add: eq)
  have "(N - 1) * ((- height) div N) \<le> N * ((- height) div N)"
    using assms nn by (intro mult_right_mono) simp_all
  also have "\<dots> \<le> - height"
  proof -
    have "N * ((- height) div N) + (- height) mod N = - height" by simp
    moreover have "0 \<le> (- height) mod N" using assms by simp
    ultimately show ?thesis by linarith
  qed
  finally show "height \<le> (N - 1) * (height sdiv N)" by (simp add: eq)
qed

subsection \<open>Bands in either order\<close>

text \<open>
  What a band writes does not depend on the buffer it starts from, and it writes only
  the bytes of its own rows. Two bands over disjoint row ranges therefore leave the same
  buffer in either order (a fault of one of them is a fault in both orders), which is
  why running the worker threads in the order of their start stands for every order.
\<close>

lemma writePixel_apply:
  "writePixel pixels idx c i =
     (if i = idx + 3 then 255 else if i = idx + 2 then chan_b c
      else if i = idx + 1 then chan_g c else if i = idx then chan_r c else pixels i)"
  by (simp add: writePixel_def)

lemma regionCols_overlay:
  "nat (width - x) = n \<Longrightarrow>
   regionCols state palette pixelSize halfSize ci width y x pixels =
     (case regionCols state palette pixelSize halfSize ci width y x (\<lambda>_. 0) of
        Inl e \<Rightarrow> Inl e
      | Inr q \<Rightarrow> Inr (\<lambda>i. if (y * width + x) * 4 \<le> i \<and> i < (y * width + width) * 4
                          then q i else pixels i))"
proof (induction n arbitrary: x pixels)
  case 0
  then have "width \<le> x" by simp
  then have "regionCols state palette pixelSize halfSize ci width y x p = Inr p" for p
    by (subst regionCols.simps) simp
  moreover have "\<not> ((y * width + x) * 4 \<le> i \<and> i < (y * width + width) * 4)" for i
    using \<open>width \<le> x\<close> by simp
  ultimately show ?case by (auto simp: fun_eq_iff)
next
  case (Suc n)
  then have lt: "x < width" and n: "nat (width - (x + 1)) = n" by simp_all
  let ?cr = "viewportX state - halfSize + real_of_int x * pixelSize"
  let ?calc = "calculateFractal ?cr ci (juliaX state) (juliaY state) (maxIterations state)
                (showJulia state) (fractalType state) (stripes state)
                (stripeFrequency state) (innerCalculation state)"
  let ?idx = "(y * width + x) * 4"
  have unfold: "regionCols state palette pixelSize halfSize ci width y x p =
      (case ?calc of Inl e \<Rightarrow> Inl e
       | Inr info \<Rightarrow>
           (case shadePixel state palette info of Inl e \<Rightarrow> Inl e
            | Inr color \<Rightarrow>
                regionCols state palette pixelSize halfSize ci width y (x + 1)
                  (writePixel p ?idx color)))" for p
    using lt by (subst regionCols.simps) (simp add: Let_def)
  show ?case
  proof (cases ?calc)
    case (Inl e)
    then show ?thesis by (simp add: unfold)
  next
    case (Inr info)
    show ?thesis
    proof (cases "shadePixel state palette info")
      case (Inl e)
      with Inr show ?thesis by (simp add: unfold)
    next
      case shade: (Inr color)
      let ?next = "regionCols state palette pixelSize halfSize ci width y (x + 1)"
      have step: "regionCols state palette pixelSize halfSize ci width y x p =
          ?next (writePixel p ?idx color)" for p
        using Inr shade by (simp add: unfold)
      have L: "?next (writePixel pixels ?idx color) =
          (case ?next (\<lambda>_. 0) of
             Inl e \<Rightarrow> Inl e
           | Inr q \<Rightarrow> Inr (\<lambda>i. if (y * width + (x + 1)) * 4 \<le> i \<and> i < (y * width + width) * 4
                               then q i else writePixel pixels ?idx color i))"
        by (rule Suc.IH[OF n])
      have R: "?next (writePixel (\<lambda>_. 0) ?idx color) =
          (case ?next (\<lambda>_. 0) of
             Inl e \<Rightarrow> Inl e
           | Inr q \<Rightarrow> Inr (\<lambda>i. if (y * width + (x + 1)) * 4 \<le> i \<and> i < (y * width + width) * 4
                               then q i else writePixel (\<lambda>_. 0) ?idx color i))"
        by (rule Suc.IH[OF n])
      show ?thesis
      proof (cases "?next (\<lambda>_. 0)")
        case (Inl e)
        show ?thesis unfolding step L R Inl by simp
      next
        case (Inr q)
        have "(y * width + (x + 1)) * 4 = ?idx + 4" by (simp add: algebra_simps)
        moreover have "?idx + 4 \<le> (y * width + width) * 4" using lt by simp
        ultimately show ?thesis
          unfolding step L R Inr by (auto simp: writePixel_apply fun_eq_iff)
      qed
    qed
  qed
qed


lemma regionRows_overlay:
  "nat (endY - y) = n \<Longrightarrow> 0 \<le> width \<Longrightarrow>
   regionRows state palette pixelSize halfSize endY width y pixels =
     (case regionRows state palette pixelSize halfSize endY width y (\<lambda>_. 0) of
        Inl e \<Rightarrow> Inl e
      | Inr q \<Rightarrow> Inr (\<lambda>i. if y * width * 4 \<le> i \<and> i < endY * width * 4
                          then q i else pixels i))"
proof (induction n arbitrary: y pixels)
  case 0
  then have le: "endY \<le> y" by simp
  then have "endY * width \<le> y * width" using 0(2) by (rule mult_right_mono)
  then have "\<not> (y * width * 4 \<le> i \<and> i < endY * width * 4)" for i by simp
  then show ?case by (auto simp: regionRows_empty[OF le] fun_eq_iff)
next
  case (Suc n)
  then have lt: "y < endY" and n: "nat (endY - (y + 1)) = n" by simp_all
  let ?ci = "viewportY state - halfSize + real_of_int y * pixelSize"
  let ?cols = "regionCols state palette pixelSize halfSize ?ci width y 0"
  let ?next = "regionRows state palette pixelSize halfSize endY width (y + 1)"
  have unfold: "regionRows state palette pixelSize halfSize endY width y p =
      (case ?cols p of Inl e \<Rightarrow> Inl e | Inr p' \<Rightarrow> ?next p')" for p
    using lt by (subst regionRows.simps) (simp add: Let_def)
  have C: "?cols pixels =
      (case ?cols (\<lambda>_. 0) of
         Inl e \<Rightarrow> Inl e
       | Inr q \<Rightarrow> Inr (\<lambda>i. if (y * width + 0) * 4 \<le> i \<and> i < (y * width + width) * 4
                           then q i else pixels i))"
    by (rule regionCols_overlay[OF refl])
  have R: "?next p =
      (case ?next (\<lambda>_. 0) of
         Inl e \<Rightarrow> Inl e
       | Inr q \<Rightarrow> Inr (\<lambda>i. if (y + 1) * width * 4 \<le> i \<and> i < endY * width * 4
                           then q i else p i))" for p
    by (rule Suc.IH[OF n Suc.prems(2)])
  show ?case
  proof (cases "?cols (\<lambda>_. 0)")
    case (Inl e)
    show ?thesis unfolding unfold C Inl by simp
  next
    case cols: (Inr qc)
    show ?thesis
    proof (cases "?next (\<lambda>_. 0)")
      case (Inl e)
      show ?thesis
        unfolding unfold C cols sum.case
        by (subst R, subst (2) R) (simp add: Inl)
    next
      case rows: (Inr qr)
      have "(y + 1) * width \<le> endY * width"
        using lt Suc.prems(2) by (intro mult_right_mono) simp_all
      then have a: "(y + 1) * width * 4 \<le> endY * width * 4" by simp
      have b: "(y + 1) * width * 4 = y * width * 4 + width * 4" by (simp add: algebra_simps)
      have c: "(y * width + 0) * 4 = y * width * 4" "(y * width + width) * 4 = y * width * 4 + width * 4"
        by (simp_all add: algebra_simps)
      show ?thesis
        unfolding unfold C cols sum.case
        apply (subst R, subst (2) R)
        using a Suc.prems(2) unfolding rows sum.case b c
        apply (auto simp: fun_eq_iff)
        done
    qed
  qed
qed


lemma renderFractalRegion_overlay:
  assumes "0 \<le> width"
  shows "renderFractalRegion pixels state startY endY width height =
     (case renderFractalRegion (\<lambda>_. 0) state startY endY width height of
        Inl e \<Rightarrow> Inl e
      | Inr q \<Rightarrow> Inr (\<lambda>i. if startY * width * 4 \<le> i \<and> i < endY * width * 4
                          then q i else pixels i))"
  unfolding renderFractalRegion_def Let_def
  by (rule regionRows_overlay[OF refl assms])

lemma regionCols_no_width:
  "width \<le> 0 \<Longrightarrow> regionCols state palette pixelSize halfSize ci width y 0 pixels = Inr pixels"
  by (subst regionCols.simps) simp

lemma regionRows_no_width:
  "nat (endY - y) = n \<Longrightarrow> width \<le> 0 \<Longrightarrow>
   regionRows state palette pixelSize halfSize endY width y pixels = Inr pixels"
proof (induction n arbitrary: y)
  case 0
  then show ?case by (simp add: regionRows_empty)
next
  case (Suc n)
  then have lt: "y < endY" and n: "nat (endY - (y + 1)) = n" by simp_all
  show ?case
    by (subst regionRows.simps)
       (simp add: lt Let_def regionCols_no_width[OF Suc.prems(2)] Suc.IH[OF n Suc.prems(2)])
qed

lemma renderFractalRegion_no_width:
  "width \<le> 0 \<Longrightarrow> renderFractalRegion pixels state startY endY width height = Inr pixels"
  by (simp add: renderFractalRegion_def Let_def regionRows_no_width[OF refl])

lemma bands_commute:
  assumes "b \<le> c"
  shows "(case renderFractalRegion pixels state a b width height of
            Inl e \<Rightarrow> None
          | Inr p \<Rightarrow> (case renderFractalRegion p state c d width height of
                        Inl e \<Rightarrow> None | Inr r \<Rightarrow> Some r)) =
         (case renderFractalRegion pixels state c d width height of
            Inl e \<Rightarrow> None
          | Inr p \<Rightarrow> (case renderFractalRegion p state a b width height of
                        Inl e \<Rightarrow> None | Inr r \<Rightarrow> Some r))"
proof (cases "0 \<le> width")
  case False
  then have "width \<le> 0" by simp
  then show ?thesis by (simp add: renderFractalRegion_no_width)
next
  case True
  have "b * width \<le> c * width" using assms True by (rule mult_right_mono)
  then have sep: "b * width * 4 \<le> c * width * 4" by simp
  note ov = renderFractalRegion_overlay[OF True]
  show ?thesis
  proof (cases "renderFractalRegion (\<lambda>_. 0) state a b width height")
    case A: (Inl e)
    have first: "renderFractalRegion p state a b width height = Inl e" for p
      by (subst ov) (simp add: A)
    show ?thesis
    proof (cases "renderFractalRegion (\<lambda>_. 0) state c d width height")
      case B: (Inl e')
      have second: "renderFractalRegion p state c d width height = Inl e'" for p
        by (subst ov) (simp add: B)
      show ?thesis unfolding first second sum.case by simp
    next
      case B: (Inr qb)
      have second: "renderFractalRegion p state c d width height =
          Inr (\<lambda>i. if c * width * 4 \<le> i \<and> i < d * width * 4 then qb i else p i)" for p
        by (subst ov) (simp add: B)
      show ?thesis unfolding first second sum.case by simp
    qed
  next
    case A: (Inr qa)
    have first: "renderFractalRegion p state a b width height =
        Inr (\<lambda>i. if a * width * 4 \<le> i \<and> i < b * width * 4 then qa i else p i)" for p
      by (subst ov) (simp add: A)
    show ?thesis
    proof (cases "renderFractalRegion (\<lambda>_. 0) state c d width height")
      case B: (Inl e')
      have second: "renderFractalRegion p state c d width height = Inl e'" for p
        by (subst ov) (simp add: B)
      show ?thesis unfolding first second sum.case by simp
    next
      case B: (Inr qb)
      have second: "renderFractalRegion p state c d width height =
          Inr (\<lambda>i. if c * width * 4 \<le> i \<and> i < d * width * 4 then qb i else p i)" for p
        by (subst ov) (simp add: B)
      show ?thesis
        unfolding first second sum.case
        using sep by (auto simp: fun_eq_iff)
    qed
  qed
qed

subsection \<open>Independence of the band split\<close>

text \<open>
  Claim C1. For every number \<open>NUM_THREADS \<ge> 1\<close> of bands, every state, width and
  height, the full-resolution render (bands of \<^verbatim>\<open>height / NUM_THREADS\<close> rows, the last
  one taking the remainder) leaves the same buffer as one call of
  \<^verbatim>\<open>renderFractalRegion\<close> over the rows [0, height); when a sample has no defined
  colour, both report the same fault.
\<close>

theorem renderFractal_band_split:
  assumes "1 \<le> NUM_THREADS"
  shows "renderFractal NUM_THREADS pixels state width height False =
           renderFractalRegion pixels state 0 height width height"
proof (cases "0 \<le> height")
  case True
  from sdiv_tiles_nonneg[OF assms True]
  have "renderBands NUM_THREADS pixels state width height (height sdiv NUM_THREADS) 0 =
          renderFractalRegion pixels state (0 * (height sdiv NUM_THREADS)) height width height"
    using assms by (intro renderBands_tiles[OF refl]) simp_all
  then show ?thesis using assms by (simp add: renderFractal_def Let_def)
next
  case False
  then have neg: "height < 0" by simp
  from sdiv_tiles_neg[OF assms neg]
  have "renderBands NUM_THREADS pixels state width height (height sdiv NUM_THREADS) 0 = Inr pixels"
    by (intro renderBands_all_empty[OF refl]) simp_all
  then show ?thesis
    using assms neg by (simp add: renderFractal_def Let_def renderFractalRegion_empty)
qed

theorem renderFractal_band_split_witness:
  "(1::int) \<le> 4 \<and>
   renderFractal 4 (\<lambda>_. 0) (defaultState\<lparr>stripes := False\<rparr>) 4 4 False =
     renderFractalRegion (\<lambda>_. 0) (defaultState\<lparr>stripes := False\<rparr>) 0 4 4 4"
proof -
  have h: "(1::int) \<le> 4" by simp
  show ?thesis by (rule conjI[OF h renderFractal_band_split[OF h]])
qed

subsection \<open>The preview with blocks of one pixel\<close>

lemma fill_one:
  "x < width \<Longrightarrow> y < height \<Longrightarrow>
   fillRows pixels color width height 1 x y 0 = writePixel pixels ((y * width + x) * 4) color"
  apply (subst fillRows.simps, simp)
  apply (subst fillRows.simps, simp)
  apply (subst fillCols.simps, simp)
  apply (subst fillCols.simps, simp)
  done

lemma previewCols_one:
  "nat (width - x) = n \<Longrightarrow> y < height \<Longrightarrow>
   previewCols state palette pixelSize halfSize ci width height 1 y x pixels =
     regionCols state palette pixelSize halfSize ci width y x pixels"
proof (induction n arbitrary: x pixels)
  case 0
  then show ?case by (subst previewCols.simps, subst regionCols.simps) simp
next
  case (Suc n)
  then have lt: "x < width" and n: "nat (width - (x + 1)) = n" by simp_all
  show ?case
    apply (subst previewCols.simps, subst regionCols.simps)
    using lt Suc.prems(2) Suc.IH[OF n Suc.prems(2)]
    apply (simp add: Let_def fill_one split: sum.splits)
    done
qed

lemma previewRows_one:
  "nat (height - y) = n \<Longrightarrow>
   previewRows state palette pixelSize halfSize width height 1 y pixels =
     regionRows state palette pixelSize halfSize height width y pixels"
proof (induction n arbitrary: y pixels)
  case 0
  then show ?case by (subst previewRows.simps, subst regionRows.simps) simp
next
  case (Suc n)
  then have lt: "y < height" and n: "nat (height - (y + 1)) = n" by simp_all
  show ?case
    apply (subst previewRows.simps, subst regionRows.simps)
    using lt Suc.IH[OF n]
    apply (simp add: Let_def previewCols_one[OF refl lt] split: sum.splits)
    done
qed

text \<open>
  Claim C5. For every state, width and height, \<^verbatim>\<open>renderPreview\<close> with
  \<^verbatim>\<open>downscale = 1\<close> leaves the same buffer (or reports the same fault) as
  \<^verbatim>\<open>renderFractalRegion\<close> over the rows [0, height).
\<close>

theorem renderPreview_downscale_one:
  "renderPreview pixels state width height 1 =
     renderFractalRegion pixels state 0 height width height"
  by (simp add: renderPreview_def renderFractalRegion_def Let_def previewRows_one[OF refl])

section \<open>Properties of the rounding\<close>

text \<open>
  Rounding to nearest moves a number by at most half a unit in the last place, leaves
  the numbers of the format where they are, and keeps a number on its side of every
  integer that the format holds.
\<close>

lemma round_ties_even_floor: "\<lfloor>y\<rfloor> \<le> round_ties_even y"
  by (simp add: round_ties_even_def Let_def)

lemma round_ties_even_ceiling: "round_ties_even y \<le> \<lceil>y\<rceil>"
proof -
  have "\<lfloor>y\<rfloor> + 1 \<le> \<lceil>y\<rceil>" if "real_of_int \<lfloor>y\<rfloor> < y"
    using that by linarith
  then show ?thesis
    by (auto simp: round_ties_even_def Let_def)
qed

lemma round_ties_even_error: "\<bar>real_of_int (round_ties_even y) - y\<bar> \<le> 1 / 2"
  by (auto simp: round_ties_even_def Let_def)

lemma round_ties_even_of_int: "round_ties_even (real_of_int n) = n"
  by (simp add: round_ties_even_def)

lemma round_ties_even_ge: "real_of_int n \<le> y \<Longrightarrow> n \<le> round_ties_even y"
proof -
  assume "real_of_int n \<le> y"
  then have "n \<le> \<lfloor>y\<rfloor>" by (simp add: le_floor_iff)
  with round_ties_even_floor[of y] show ?thesis by linarith
qed

lemma round_ties_even_le: "y \<le> real_of_int n \<Longrightarrow> round_ties_even y \<le> n"
  using round_ties_even_ceiling[of y] by (meson ceiling_le_iff order_trans)

lemma binade_bounds:
  assumes "x \<noteq> 0"
  shows "2 powi \<lfloor>log 2 \<bar>x\<bar>\<rfloor> \<le> \<bar>x\<bar>" "\<bar>x\<bar> < 2 powi (\<lfloor>log 2 \<bar>x\<bar>\<rfloor> + 1)"
proof -
  have pos: "0 < \<bar>x\<bar>" using assms by simp
  have "2 powr real_of_int \<lfloor>log 2 \<bar>x\<bar>\<rfloor> \<le> \<bar>x\<bar> \<and> \<bar>x\<bar> < 2 powr (real_of_int \<lfloor>log 2 \<bar>x\<bar>\<rfloor> + 1)"
    using floor_log_eq_powr_iff[OF pos, of 2 "\<lfloor>log 2 \<bar>x\<bar>\<rfloor>"] by simp
  moreover have "(2::real) powr real_of_int k = 2 powi k" for k
    by (rule powr_real_of_int') simp_all
  moreover have "real_of_int \<lfloor>log 2 \<bar>x\<bar>\<rfloor> + 1 = real_of_int (\<lfloor>log 2 \<bar>x\<bar>\<rfloor> + 1)" by simp
  ultimately show "2 powi \<lfloor>log 2 \<bar>x\<bar>\<rfloor> \<le> \<bar>x\<bar>" "\<bar>x\<bar> < 2 powi (\<lfloor>log 2 \<bar>x\<bar>\<rfloor> + 1)"
    by metis+
qed

lemma binade_le:
  assumes "x \<noteq> 0" "\<bar>x\<bar> < 2 powi k"
  shows "\<lfloor>log 2 \<bar>x\<bar>\<rfloor> < k"
proof (rule ccontr)
  assume "\<not> \<lfloor>log 2 \<bar>x\<bar>\<rfloor> < k"
  then have "k \<le> \<lfloor>log 2 \<bar>x\<bar>\<rfloor>" by simp
  then have "(2::real) powi k \<le> 2 powi \<lfloor>log 2 \<bar>x\<bar>\<rfloor>"
    by (intro power_int_increasing) simp_all
  with binade_bounds(1)[OF assms(1)] assms(2) show False by linarith
qed

lemma binade_ge:
  assumes "2 powi k \<le> \<bar>x\<bar>"
  shows "k \<le> \<lfloor>log 2 \<bar>x\<bar>\<rfloor>"
proof (rule ccontr)
  have nz: "x \<noteq> 0" using assms
    by (metis abs_zero not_le zero_less_numeral zero_less_power_int)
  assume "\<not> k \<le> \<lfloor>log 2 \<bar>x\<bar>\<rfloor>"
  then have "\<lfloor>log 2 \<bar>x\<bar>\<rfloor> + 1 \<le> k" by simp
  then have "(2::real) powi (\<lfloor>log 2 \<bar>x\<bar>\<rfloor> + 1) \<le> 2 powi k"
    by (intro power_int_increasing) simp_all
  with binade_bounds(2)[OF nz] assms show False by linarith
qed

lemma power_int_nonpos: "u \<le> 0 \<Longrightarrow> (2::real) powi u = 1 / 2 ^ nat (- u)"
  using power_int_minus_divide[of "2::real" "- u"] by (simp add: power_int_nonneg_exp)

lemma ulp_exponent_ge: "emin - int p + 1 \<le> ulp_exponent p emin x"
  by (simp add: ulp_exponent_def)

lemma ulp_exponent_le:
  assumes "x \<noteq> 0" "\<bar>x\<bar> < 2 powi (int p + e)" "emin - int p + 1 \<le> e"
  shows "ulp_exponent p emin x \<le> e"
  using binade_le[OF assms(1,2)] assms(3) by (simp add: ulp_exponent_def)

lemma round_fp_scaled:
  assumes "x \<noteq> 0"
  shows "round_fp p emin x / 2 powi ulp_exponent p emin x =
           real_of_int (round_ties_even (x / 2 powi ulp_exponent p emin x))"
  using assms by (simp add: round_fp_def)

lemma round_fp_exact:
  assumes m: "\<bar>m\<bar> < 2 ^ p" and e: "emin - int p + 1 \<le> e"
  shows "round_fp p emin (real_of_int m * 2 powi e) = real_of_int m * 2 powi e"
proof (cases "m = 0")
  case True
  then show ?thesis by (simp add: round_fp_def)
next
  case False
  let ?x = "real_of_int m * 2 powi e"
  let ?u = "ulp_exponent p emin ?x"
  have nz: "?x \<noteq> 0" using False by simp
  have "\<bar>?x\<bar> = real_of_int \<bar>m\<bar> * 2 powi e" by (simp add: abs_mult power_int_abs)
  also have "\<dots> < 2 ^ p * 2 powi e"
  proof (rule mult_strict_right_mono)
    have "real_of_int \<bar>m\<bar> < real_of_int (2 ^ p)" using m by (simp only: of_int_less_iff)
    then show "real_of_int \<bar>m\<bar> < 2 ^ p" by simp
  qed simp
  also have "\<dots> = 2 powi (int p + e)" by (simp add: power_int_add)
  finally have "\<bar>?x\<bar> < 2 powi (int p + e)" .
  from ulp_exponent_le[OF nz this e] have ue: "?u \<le> e" .
  have split: "(2::real) powi e = 2 powi ?u * 2 ^ nat (e - ?u)"
  proof -
    have "(2::real) powi e = 2 powi (?u + (e - ?u))" by simp
    also have "\<dots> = 2 powi ?u * 2 powi (e - ?u)" by (rule power_int_add) simp
    also have "(2::real) powi (e - ?u) = 2 ^ nat (e - ?u)"
      using ue by (simp add: power_int_nonneg_exp)
    finally show ?thesis .
  qed
  have "?x / 2 powi ?u = real_of_int (m * 2 ^ nat (e - ?u))"
    by (subst split) simp
  then have "round_ties_even (?x / 2 powi ?u) = m * 2 ^ nat (e - ?u)"
    by (simp only: round_ties_even_of_int)
  then have "round_fp p emin ?x = real_of_int (m * 2 ^ nat (e - ?u)) * 2 powi ?u"
    using nz by (simp only: round_fp_def if_False)
  also have "\<dots> = ?x" by (subst (2) split) simp
  finally show ?thesis .
qed

lemma round_fp_exact_le:
  assumes m: "\<bar>m\<bar> \<le> 2 ^ p" and e: "emin - int p + 1 \<le> e" and p: "0 < p"
  shows "round_fp p emin (real_of_int m * 2 powi e) = real_of_int m * 2 powi e"
proof (cases "\<bar>m\<bar> < 2 ^ p")
  case True
  then show ?thesis by (rule round_fp_exact[OF _ e])
next
  case False
  with m have eq: "\<bar>m\<bar> = 2 ^ p" by simp
  obtain q where q: "p = Suc q" using p by (cases p) simp_all
  define h where "h = (if 0 \<le> m then (2::int) ^ q else - (2 ^ q))"
  have mh: "m = 2 * h" using eq by (auto simp: h_def q abs_if split: if_splits)
  have hb: "\<bar>h\<bar> < 2 ^ p" by (simp add: h_def q)
  have "real_of_int m * 2 powi e = real_of_int h * 2 powi (e + 1)"
    by (simp add: mh power_int_add)
  moreover have "round_fp p emin (real_of_int h * 2 powi (e + 1)) = real_of_int h * 2 powi (e + 1)"
    by (rule round_fp_exact[OF hb]) (use e in simp)
  ultimately show ?thesis by simp
qed

lemma round_fp_of_int:
  assumes "\<bar>n\<bar> \<le> 2 ^ p" "emin - int p + 1 \<le> 0" "0 < p"
  shows "round_fp p emin (real_of_int n) = real_of_int n"
  using round_fp_exact_le[OF assms(1) assms(2) assms(3)] by simp

lemma round_fp_error_ulp:
  "\<bar>round_fp p emin x - x\<bar> \<le> 2 powi ulp_exponent p emin x / 2"
proof (cases "x = 0")
  case True
  then show ?thesis by (simp add: round_fp_def)
next
  case False
  let ?u = "ulp_exponent p emin x"
  have pos: "(0::real) < 2 powi ?u" by simp
  have "round_fp p emin x - x =
          (real_of_int (round_ties_even (x / 2 powi ?u)) - x / 2 powi ?u) * 2 powi ?u"
    using False by (simp add: round_fp_def algebra_simps)
  then have "\<bar>round_fp p emin x - x\<bar> =
          \<bar>real_of_int (round_ties_even (x / 2 powi ?u)) - x / 2 powi ?u\<bar> * 2 powi ?u"
    by (simp add: abs_mult)
  also have "\<dots> \<le> 1 / 2 * 2 powi ?u"
    by (rule mult_right_mono[OF round_ties_even_error]) simp
  finally show ?thesis by simp
qed

lemma round_fp_error_normal:
  assumes "2 powi emin \<le> \<bar>x\<bar>"
  shows "\<bar>round_fp p emin x - x\<bar> \<le> \<bar>x\<bar> / 2 ^ p"
proof -
  have nz: "x \<noteq> 0" using assms
    by (metis abs_zero not_le zero_less_numeral zero_less_power_int)
  let ?b = "\<lfloor>log 2 \<bar>x\<bar>\<rfloor>"
  have "emin \<le> ?b" by (rule binade_ge[OF assms])
  then have u: "ulp_exponent p emin x = ?b - int p + 1" by (simp add: ulp_exponent_def)
  have "(2::real) powi (?b - int p + 1) = 2 powi ?b * 2 powi (- int p) * 2"
    by (simp add: power_int_add power_int_diff power_int_minus field_simps)
  then have "(2::real) powi (?b - int p + 1) / 2 = 2 powi ?b / 2 ^ p"
    by (simp add: power_int_minus field_simps)
  also have "\<dots> \<le> \<bar>x\<bar> / 2 ^ p"
    by (rule divide_right_mono[OF binade_bounds(1)[OF nz]]) simp
  finally show ?thesis using round_fp_error_ulp[of p emin x] unfolding u by linarith
qed

lemma round_fp_error_subnormal:
  assumes "\<bar>x\<bar> < 2 powi emin"
  shows "\<bar>round_fp p emin x - x\<bar> \<le> 2 powi (emin - int p)"
proof (cases "x = 0")
  case True
  then show ?thesis by (simp add: round_fp_def)
next
  case False
  from binade_le[OF False assms] have "\<lfloor>log 2 \<bar>x\<bar>\<rfloor> < emin" .
  then have u: "ulp_exponent p emin x = emin - int p + 1" by (simp add: ulp_exponent_def)
  have "(2::real) powi (emin - int p + 1) / 2 = 2 powi (emin - int p)"
    by (simp add: power_int_add)
  with round_fp_error_ulp[of p emin x] show ?thesis unfolding u by simp
qed

lemma round_fp_ge_int:
  assumes n: "real_of_int n \<le> x" and u: "ulp_exponent p emin x \<le> 0"
  shows "real_of_int n \<le> round_fp p emin x"
proof (cases "x = 0")
  case True
  with n show ?thesis by (simp add: round_fp_def)
next
  case False
  let ?u = "ulp_exponent p emin x"
  have inv: "1 / (2::real) powi ?u = 2 ^ nat (- ?u)"
    by (simp add: power_int_nonpos[OF u])
  have "real_of_int (n * 2 ^ nat (- ?u)) = real_of_int n * (1 / 2 powi ?u)"
    by (simp add: inv)
  also have "\<dots> \<le> x * (1 / 2 powi ?u)"
    by (rule mult_right_mono[OF n]) simp
  finally have "real_of_int (n * 2 ^ nat (- ?u)) \<le> x / 2 powi ?u" by simp
  then have "n * 2 ^ nat (- ?u) \<le> round_ties_even (x / 2 powi ?u)"
    by (rule round_ties_even_ge)
  then have "real_of_int (n * 2 ^ nat (- ?u)) \<le> real_of_int (round_ties_even (x / 2 powi ?u))"
    by (simp only: of_int_le_iff)
  then have A: "real_of_int (n * 2 ^ nat (- ?u)) * 2 powi ?u \<le> round_fp p emin x"
    using False by (simp add: round_fp_def)
  have B: "real_of_int (n * 2 ^ nat (- ?u)) * 2 powi ?u = real_of_int n"
    using inv by (simp add: field_simps)
  from A[unfolded B] show ?thesis .
qed

lemma round_fp_le_int:
  assumes n: "x \<le> real_of_int n" and u: "ulp_exponent p emin x \<le> 0"
  shows "round_fp p emin x \<le> real_of_int n"
proof (cases "x = 0")
  case True
  with n show ?thesis by (simp add: round_fp_def)
next
  case False
  let ?u = "ulp_exponent p emin x"
  have inv: "1 / (2::real) powi ?u = 2 ^ nat (- ?u)"
    by (simp add: power_int_nonpos[OF u])
  have "x * (1 / 2 powi ?u) \<le> real_of_int n * (1 / 2 powi ?u)"
    by (rule mult_right_mono[OF n]) simp
  also have "\<dots> = real_of_int (n * 2 ^ nat (- ?u))"
    by (simp add: inv)
  finally have "x / 2 powi ?u \<le> real_of_int (n * 2 ^ nat (- ?u))" by simp
  then have "round_ties_even (x / 2 powi ?u) \<le> n * 2 ^ nat (- ?u)"
    by (rule round_ties_even_le)
  then have "real_of_int (round_ties_even (x / 2 powi ?u)) \<le> real_of_int (n * 2 ^ nat (- ?u))"
    by (simp only: of_int_le_iff)
  then have A: "round_fp p emin x \<le> real_of_int (n * 2 ^ nat (- ?u)) * 2 powi ?u"
    using False by (simp add: round_fp_def)
  have B: "real_of_int (n * 2 ^ nat (- ?u)) * 2 powi ?u = real_of_int n"
    using inv by (simp add: field_simps)
  from A[unfolded B] show ?thesis .
qed

lemma round_fp_representable:
  assumes p: "0 < p"
  shows "\<exists>m e. round_fp p emin x = real_of_int m * 2 powi e \<and> \<bar>m\<bar> \<le> 2 ^ p
           \<and> emin - int p + 1 \<le> e"
proof (cases "x = 0")
  case True
  have "round_fp p emin x = real_of_int 0 * 2 powi (emin - int p + 1)"
    using True by (simp add: round_fp_def)
  then show ?thesis by (intro exI[of _ 0] exI[of _ "emin - int p + 1"]) simp
next
  case False
  let ?u = "ulp_exponent p emin x"
  let ?b = "\<lfloor>log 2 \<bar>x\<bar>\<rfloor>"
  have "?b + 1 \<le> ?u + int p" by (simp add: ulp_exponent_def)
  then have "(2::real) powi (?b + 1) \<le> 2 powi (?u + int p)"
    by (intro power_int_increasing) simp_all
  with binade_bounds(2)[OF False] have "\<bar>x\<bar> < 2 powi (?u + int p)" by linarith
  also have "\<dots> = 2 powi ?u * 2 ^ p" by (simp add: power_int_add)
  finally have "\<bar>x\<bar> / 2 powi ?u < 2 ^ p" by (simp add: field_simps)
  then have ab: "\<bar>x / 2 powi ?u\<bar> < 2 ^ p" by (simp add: abs_divide power_int_abs)
  have cast: "real_of_int (2 ^ p) = 2 ^ p" by simp
  have up: "x / 2 powi ?u \<le> real_of_int (2 ^ p)" unfolding cast using ab by linarith
  have lo: "real_of_int (- (2 ^ p)) \<le> x / 2 powi ?u"
    unfolding of_int_minus cast using ab by linarith
  from round_ties_even_le[OF up] round_ties_even_ge[OF lo]
  have "\<bar>round_ties_even (x / 2 powi ?u)\<bar> \<le> 2 ^ p" by simp
  moreover have "round_fp p emin x = real_of_int (round_ties_even (x / 2 powi ?u)) * 2 powi ?u"
    using False by (simp add: round_fp_def)
  ultimately show ?thesis
    by (intro exI[of _ "round_ties_even (x / 2 powi ?u)"] exI[of _ ?u] conjI ulp_exponent_ge)
qed

lemma round_fp_fraction:
  assumes t: "t = real_of_int m * 2 powi e" and nonneg: "0 \<le> t" and m: "\<bar>m\<bar> \<le> 2 ^ p"
    and e: "emin - int p + 1 \<le> e" and p: "0 < p"
  shows "round_fp p emin (t - real_of_int \<lfloor>t\<rfloor>) = t - real_of_int \<lfloor>t\<rfloor>"
proof (cases "0 \<le> e")
  case True
  then have tN: "t = real_of_int (m * 2 ^ nat e)" by (simp add: t power_int_nonneg_exp)
  have "t - real_of_int \<lfloor>t\<rfloor> = 0" unfolding tN by (simp only: floor_of_int diff_self)
  then show ?thesis by (simp add: round_fp_def)
next
  case False
  define k where "k = nat (- e)"
  have pw: "(2::real) powi e = 1 / 2 ^ k" using False by (simp add: k_def power_int_nonpos)
  have tk: "t = real_of_int m / real_of_int (2 ^ k)" by (simp add: t pw)
  have m0: "0 \<le> m"
  proof -
    have "0 \<le> real_of_int m * 2 powi e" using nonneg t by simp
    moreover have "(0::real) < 2 powi e" by simp
    ultimately have "0 \<le> real_of_int m" by (simp add: zero_le_mult_iff)
    then show ?thesis by simp
  qed
  have fl: "real_of_int \<lfloor>t\<rfloor> = real_of_int (m div 2 ^ k)"
    unfolding tk by (simp only: floor_divide_of_int_eq)
  have "m = m div 2 ^ k * 2 ^ k + m mod 2 ^ k" by (rule div_mult_mod_eq[symmetric])
  then have "real_of_int m = real_of_int (m div 2 ^ k * 2 ^ k + m mod 2 ^ k)"
    by (rule arg_cong[where f = real_of_int])
  then have dm: "real_of_int m = real_of_int (m div 2 ^ k) * 2 ^ k + real_of_int (m mod 2 ^ k)"
    by (simp only: of_int_add of_int_mult of_int_power of_int_numeral)
  have q: "real_of_int m / 2 ^ k - real_of_int (m div 2 ^ k) = real_of_int (m mod 2 ^ k) / 2 ^ k"
    by (subst dm) (simp add: field_simps)
  have t2: "t = real_of_int m / 2 ^ k" by (simp add: t pw)
  have "t - real_of_int \<lfloor>t\<rfloor> = real_of_int m / 2 ^ k - real_of_int (m div 2 ^ k)"
    unfolding fl by (simp only: t2)
  also note q
  finally have "t - real_of_int \<lfloor>t\<rfloor> = real_of_int (m mod 2 ^ k) / 2 ^ k" .
  then have fr: "t - real_of_int \<lfloor>t\<rfloor> = real_of_int (m mod 2 ^ k) * 2 powi e"
    by (simp add: pw)
  have "0 \<le> m mod 2 ^ k" by simp
  moreover have "m mod 2 ^ k \<le> m" using m0 by (simp add: zmod_le_nonneg_dividend)
  ultimately have "\<bar>m mod 2 ^ k\<bar> \<le> 2 ^ p" using m by simp
  from round_fp_exact_le[OF this e p] show ?thesis unfolding fr .
qed

lemma round_fp_zero: "round_fp p emin 0 = 0"
  by (simp add: round_fp_def)

lemma ulp_exponent_small:
  assumes "x \<noteq> 0" "\<bar>x\<bar> < 2 ^ p" "emin - int p + 1 \<le> 0"
  shows "ulp_exponent p emin x \<le> 0"
proof -
  have "\<bar>x\<bar> < 2 powi (int p + 0)" using assms(2) by simp
  from ulp_exponent_le[OF assms(1) this assms(3)] show ?thesis .
qed

lemma round_fp_bounds:
  assumes lo: "real_of_int lo \<le> x" and hi: "x \<le> real_of_int hi"
    and small: "\<bar>x\<bar> < 2 ^ p" and emin: "emin - int p + 1 \<le> 0"
  shows "real_of_int lo \<le> round_fp p emin x" "round_fp p emin x \<le> real_of_int hi"
proof -
  show "real_of_int lo \<le> round_fp p emin x"
  proof (cases "x = 0")
    case True
    with lo show ?thesis by (simp add: round_fp_def)
  next
    case False
    from round_fp_ge_int[OF lo ulp_exponent_small[OF False small emin]] show ?thesis .
  qed
  show "round_fp p emin x \<le> real_of_int hi"
  proof (cases "x = 0")
    case True
    with hi show ?thesis by (simp add: round_fp_def)
  next
    case False
    from round_fp_le_int[OF hi ulp_exponent_small[OF False small emin]] show ?thesis .
  qed
qed

lemma round_fp_ge_pow2:
  assumes x: "2 powi k \<le> x" and k: "emin \<le> k" and p: "0 < p"
  shows "2 powi k \<le> round_fp p emin x"
proof -
  have pos: "0 < x" using x by (rule less_le_trans[rotated]) simp
  then have nz: "x \<noteq> 0" and ab: "\<bar>x\<bar> = x" by simp_all
  let ?b = "\<lfloor>log 2 \<bar>x\<bar>\<rfloor>"
  let ?u = "ulp_exponent p emin x"
  have kb: "k \<le> ?b" by (rule binade_ge) (simp add: ab x)
  then have u: "?u = ?b - int p + 1" using k by (simp add: ulp_exponent_def)
  obtain q where q: "p = Suc q" using p by (cases p) simp_all
  have bu: "?b = ?u + int q" using u by (simp add: q)
  have "(2::real) powi ?b = 2 powi ?u * 2 ^ q"
    by (subst bu) (simp add: power_int_add)
  then have "real_of_int (2 ^ q) * 2 powi ?u \<le> x"
    using binade_bounds(1)[OF nz] by (simp add: ab mult.commute)
  then have "real_of_int (2 ^ q) \<le> x / 2 powi ?u" by (simp add: field_simps)
  then have "2 ^ q \<le> round_ties_even (x / 2 powi ?u)" by (rule round_ties_even_ge)
  then have "real_of_int (2 ^ q) \<le> real_of_int (round_ties_even (x / 2 powi ?u))"
    by (simp only: of_int_le_iff)
  then have "real_of_int (2 ^ q) * 2 powi ?u \<le> round_fp p emin x"
    using nz by (simp add: round_fp_def)
  moreover have "real_of_int (2 ^ q) * 2 powi ?u = 2 powi ?b"
    by (subst bu) (simp add: power_int_add mult.commute)
  moreover have "(2::real) powi k \<le> 2 powi ?b"
    using kb by (intro power_int_increasing) simp_all
  ultimately show ?thesis by linarith
qed

subsection \<open>The two formats\<close>

lemma round_double_zero: "round_double 0 = 0"
  by (simp add: round_double_def round_fp_zero)

lemma round_float_zero: "round_float 0 = 0"
  by (simp add: round_float_def round_fp_zero)

lemma round_double_dyadic:
  assumes "\<bar>m\<bar> \<le> 2 ^ 53" "- 1074 \<le> e"
  shows "round_double (real_of_int m * 2 powi e) = real_of_int m * 2 powi e"
  unfolding round_double_def by (rule round_fp_exact_le) (use assms in simp_all)

lemma round_float_dyadic:
  assumes "\<bar>m\<bar> \<le> 2 ^ 24" "- 149 \<le> e"
  shows "round_float (real_of_int m * 2 powi e) = real_of_int m * 2 powi e"
  unfolding round_float_def by (rule round_fp_exact_le) (use assms in simp_all)

lemma round_double_int: "\<bar>n\<bar> \<le> 2 ^ 53 \<Longrightarrow> round_double (real_of_int n) = real_of_int n"
  using round_double_dyadic[of n 0] by simp

lemma round_float_int: "\<bar>n\<bar> \<le> 2 ^ 24 \<Longrightarrow> round_float (real_of_int n) = real_of_int n"
  using round_float_dyadic[of n 0] by simp

lemma round_double_half:
  "\<bar>n\<bar> \<le> 2 ^ 53 \<Longrightarrow> round_double (real_of_int n / 2) = real_of_int n / 2"
  using round_double_dyadic[of n "- 1"] by simp

lemma round_float_half:
  "\<bar>n\<bar> \<le> 2 ^ 24 \<Longrightarrow> round_float (real_of_int n / 2) = real_of_int n / 2"
  using round_float_dyadic[of n "- 1"] by simp

lemma round_double_bounds:
  assumes "real_of_int lo \<le> x" "x \<le> real_of_int hi" "- (2 ^ 53) < lo" "hi < 2 ^ 53"
  shows "real_of_int lo \<le> round_double x" "round_double x \<le> real_of_int hi"
proof -
  have "real_of_int (- (2 ^ 53)) < real_of_int lo" "real_of_int hi < real_of_int (2 ^ 53)"
    using assms(3,4) by (simp_all only: of_int_less_iff)
  with assms(1,2) have small: "\<bar>x\<bar> < 2 ^ 53" by simp
  have emin: "- 1022 - int 53 + 1 \<le> 0" by simp
  from round_fp_bounds[OF assms(1,2) small emin]
  show "real_of_int lo \<le> round_double x" "round_double x \<le> real_of_int hi"
    unfolding round_double_def .
qed

lemma round_float_bounds:
  assumes "real_of_int lo \<le> x" "x \<le> real_of_int hi" "- (2 ^ 24) < lo" "hi < 2 ^ 24"
  shows "real_of_int lo \<le> round_float x" "round_float x \<le> real_of_int hi"
proof -
  have "real_of_int (- (2 ^ 24)) < real_of_int lo" "real_of_int hi < real_of_int (2 ^ 24)"
    using assms(3,4) by (simp_all only: of_int_less_iff)
  with assms(1,2) have small: "\<bar>x\<bar> < 2 ^ 24" by simp
  have emin: "- 126 - int 24 + 1 \<le> 0" by simp
  from round_fp_bounds[OF assms(1,2) small emin]
  show "real_of_int lo \<le> round_float x" "round_float x \<le> real_of_int hi"
    unfolding round_float_def .
qed

lemma round_double_error:
  "\<bar>round_double x - x\<bar> \<le> \<bar>x\<bar> / 2 ^ 53 + 1 / 2 ^ 1075"
proof (cases "2 powi (- 1022) \<le> \<bar>x\<bar>")
  case True
  from round_fp_error_normal[OF True, of 53]
  have "\<bar>round_double x - x\<bar> \<le> \<bar>x\<bar> / 2 ^ 53" by (simp only: round_double_def)
  moreover have "(0::real) \<le> 1 / 2 ^ 1075" by simp
  ultimately show ?thesis by linarith
next
  case False
  then have "\<bar>x\<bar> < 2 powi (- 1022)" by simp
  from round_fp_error_subnormal[OF this, of 53]
  have "\<bar>round_double x - x\<bar> \<le> 2 powi (- 1022 - int 53)" by (simp only: round_double_def)
  moreover have "(2::real) powi (- 1022 - int 53) = 1 / 2 ^ 1075"
    using power_int_nonpos[of "- 1075"] by simp
  moreover have "0 \<le> \<bar>x\<bar> / 2 ^ 53" by simp
  ultimately show ?thesis by linarith
qed

lemma round_float_representable:
  "\<exists>m e. round_float x = real_of_int m * 2 powi e \<and> \<bar>m\<bar> \<le> 2 ^ 24 \<and> - 149 \<le> e"
  using round_fp_representable[of 24 "- 126" x] by (simp add: round_float_def)

lemma round_float_fraction:
  assumes "t = round_float y" "0 \<le> t"
  shows "round_float (t - real_of_int \<lfloor>t\<rfloor>) = t - real_of_int \<lfloor>t\<rfloor>"
proof -
  from round_float_representable[of y] assms(1) obtain m e
    where t: "t = real_of_int m * 2 powi e" and m: "\<bar>m\<bar> \<le> 2 ^ 24" and e: "- 149 \<le> e"
    by auto
  have e': "- 126 - int 24 + 1 \<le> e" using e by simp
  from round_fp_fraction[OF t assms(2) m e'] show ?thesis by (simp add: round_float_def)
qed

lemma round_double_numeral:
  "numeral k \<le> (2::int) ^ 53 \<Longrightarrow> round_double (numeral k) = numeral k"
  using round_double_int[of "numeral k"] by simp

lemma round_double_numeral_half:
  "numeral k \<le> (2::int) ^ 53 \<Longrightarrow> round_double (numeral k / 2) = numeral k / 2"
  using round_double_half[of "numeral k"] by simp

lemma round_double_neg_numeral_half:
  "numeral k \<le> (2::int) ^ 53 \<Longrightarrow> round_double (- (numeral k / 2)) = - (numeral k / 2)"
  using round_double_half[of "- numeral k"] by simp

lemma round_double_units:
  "round_double 1 = 1" "round_double (- 1) = - 1"
  "round_double (1 / 2) = 1 / 2" "round_double (- (1 / 2)) = - (1 / 2)"
  using round_double_int[of 1] round_double_int[of "- 1"]
    round_double_half[of 1] round_double_half[of "- 1"] by simp_all

lemma round_float_numeral:
  "numeral k \<le> (2::int) ^ 24 \<Longrightarrow> round_float (numeral k) = numeral k"
  using round_float_int[of "numeral k"] by simp

lemma round_float_units:
  "round_float 1 = 1" "round_float (- 1) = - 1"
  "round_float (1 / 2) = 1 / 2" "round_float (- (1 / 2)) = - (1 / 2)"
  using round_float_int[of 1] round_float_int[of "- 1"]
    round_float_half[of 1] round_float_half[of "- 1"] by simp_all

section \<open>Properties of the colour mapping\<close>

lemma truncate_real_nonneg: "0 \<le> v \<Longrightarrow> truncate_real v = \<lfloor>v\<rfloor>"
  by (simp add: truncate_real_def)

lemma static_cast_int_nonneg:
  "0 \<le> v \<Longrightarrow> v < 2147483648 \<Longrightarrow> static_cast_int v = Inr \<lfloor>v\<rfloor>"
  by (simp add: static_cast_int_def truncate_real_def)

lemma static_cast_Uint8_nonneg: "0 \<le> v \<Longrightarrow> static_cast_Uint8 v = word_of_int \<lfloor>v\<rfloor>"
  by (simp add: static_cast_Uint8_def truncate_real_def)

lemma to_size_t_nonneg: "0 \<le> n \<Longrightarrow> n < 2 ^ 64 \<Longrightarrow> to_size_t n = nat n"
  by (simp add: to_size_t_def)

lemma fract_range: "0 \<le> v - real_of_int \<lfloor>v\<rfloor>" "v - real_of_int \<lfloor>v\<rfloor> < 1"
  by linarith+

lemma fract_rounded_range:
  "0 \<le> round_float (v - real_of_int \<lfloor>v\<rfloor>)" "round_float (v - real_of_int \<lfloor>v\<rfloor>) \<le> 1"
  using round_float_bounds[of 0 "v - real_of_int \<lfloor>v\<rfloor>" 1] fract_range[of v] by simp_all

lemma convex_between:
  fixes u v lo hi :: int and f :: real
  assumes f: "0 \<le> f" "f \<le> 1" and u: "lo \<le> u" "u \<le> hi" and v: "lo \<le> v" "v \<le> hi"
  shows "real_of_int lo \<le> real_of_int u + f * real_of_int (v - u)"
    and "real_of_int u + f * real_of_int (v - u) \<le> real_of_int hi"
proof -
  have eq: "real_of_int u + f * real_of_int (v - u) = (1 - f) * real_of_int u + f * real_of_int v"
    by (simp add: algebra_simps)
  have "(1 - f) * real_of_int lo + f * real_of_int lo
          \<le> (1 - f) * real_of_int u + f * real_of_int v"
    using f u v by (intro add_mono mult_left_mono) simp_all
  then show "real_of_int lo \<le> real_of_int u + f * real_of_int (v - u)"
    unfolding eq by (simp add: algebra_simps)
  have "(1 - f) * real_of_int u + f * real_of_int v
          \<le> (1 - f) * real_of_int hi + f * real_of_int hi"
    using f u v by (intro add_mono mult_left_mono) simp_all
  then show "real_of_int u + f * real_of_int (v - u) \<le> real_of_int hi"
    unfolding eq by (simp add: algebra_simps)
qed

lemma blend_between:
  fixes u v lo hi :: int and f :: real
  assumes f: "0 \<le> f" "f \<le> 1" and u: "lo \<le> u" "u \<le> hi" and v: "lo \<le> v" "v \<le> hi"
    and r: "0 \<le> lo" "hi \<le> 255"
  shows "real_of_int lo \<le> round_double (real_of_int u + round_double (f * real_of_int (v - u)))"
    and "round_double (real_of_int u + round_double (f * real_of_int (v - u))) \<le> real_of_int hi"
proof -
  let ?d = "v - u"
  let ?q = "round_double (f * real_of_int ?d)"
  have inner: "real_of_int (lo - u) \<le> ?q \<and> ?q \<le> real_of_int (hi - u)"
  proof (cases "0 \<le> ?d")
    case True
    have "real_of_int 0 \<le> f * real_of_int ?d" using f True by simp
    moreover have "f * real_of_int ?d \<le> real_of_int ?d"
      using f True by (simp add: mult_left_le_one_le)
    moreover have "- (2 ^ 53) < (0::int)" "?d < 2 ^ 53" using u v r by simp_all
    ultimately have "real_of_int 0 \<le> ?q" "?q \<le> real_of_int ?d"
      by (rule round_double_bounds)+
    then show ?thesis using u v True by simp
  next
    case False
    then have neg: "real_of_int ?d \<le> 0" by simp
    have "real_of_int ?d \<le> f * real_of_int ?d"
      using mult_right_mono_neg[OF f(2) neg] by simp
    moreover have "f * real_of_int ?d \<le> real_of_int 0"
      using f neg by (simp add: mult_nonneg_nonpos)
    moreover have "- (2 ^ 53) < ?d" "(0::int) < 2 ^ 53" using u v r by simp_all
    ultimately have "real_of_int ?d \<le> ?q" "?q \<le> real_of_int 0"
      by (rule round_double_bounds)+
    then show ?thesis using u v False by simp
  qed
  have lo: "real_of_int lo \<le> real_of_int u + ?q" using inner by simp
  have hi: "real_of_int u + ?q \<le> real_of_int hi" using inner by simp
  have b: "- (2 ^ 53) < lo" "hi < 2 ^ 53" using r by simp_all
  from round_double_bounds[OF lo hi b]
  show "real_of_int lo \<le> round_double (real_of_int u + ?q)"
    and "round_double (real_of_int u + ?q) \<le> real_of_int hi" .
qed

lemma uint8_range: "0 \<le> uint (w :: Uint8)" "uint (w :: Uint8) \<le> 255"
proof -
  show "0 \<le> uint w" by simp
  have "uint w < 2 ^ 8" using uint_bounded[of w] by simp
  then show "uint w \<le> 255" by simp
qed

lemma uint8_channel_range:
  fixes w :: Uint8
  assumes "w \<noteq> 0"
  shows "1 \<le> uint w" "uint w \<le> 255"
proof -
  have "uint w \<noteq> 0" using assms by (simp add: uint_0_iff)
  moreover have "0 \<le> uint w" by simp
  ultimately show "1 \<le> uint w" by linarith
  show "uint w \<le> 255" by (rule uint8_range)
qed

lemma static_cast_Uint8_nonzero:
  assumes "1 \<le> v" "v < 256"
  shows "static_cast_Uint8 v \<noteq> 0"
proof -
  have "1 \<le> \<lfloor>v\<rfloor>" "\<lfloor>v\<rfloor> < 256" using assms by (simp_all add: le_floor_iff floor_less_iff)
  then have "\<not> (256::int) dvd \<lfloor>v\<rfloor>"
    by (meson zdvd_not_zless zero_less_one_class.zero_less_one order_less_le_trans)
  then show ?thesis
    using assms by (simp add: static_cast_Uint8_def truncate_real_def word_of_int_eq_0_iff)
qed

lemma interpolate_green_nonzero:
  assumes "0 \<le> f" "f \<le> 1" "chan_g c1 \<noteq> 0" "chan_g c2 \<noteq> 0"
  shows "chan_g (interpolateColors c1 c2 f) \<noteq> 0"
proof -
  have one: "(0::int) \<le> 1" "(255::int) \<le> 255" by simp_all
  from blend_between[OF assms(1,2) uint8_channel_range[OF assms(3)]
      uint8_channel_range[OF assms(4)] one]
  have "1 \<le> round_double (real_of_int (uint (chan_g c1))
            + round_double (f * real_of_int (uint (chan_g c2) - uint (chan_g c1))))"
    and "round_double (real_of_int (uint (chan_g c1))
            + round_double (f * real_of_int (uint (chan_g c2) - uint (chan_g c1)))) < 256"
    by simp_all
  from static_cast_Uint8_nonzero[OF this] show ?thesis
    by (simp add: interpolateColors_def sfColor_def)
qed

lemma palettes_green:
  "p \<in> {0, 3, 4} \<Longrightarrow> c \<in> set (PALETTES ! p) \<Longrightarrow> chan_g c \<noteq> 0"
  by (auto simp: PALETTES_def sfColor_def)

lemma paletteLookup_members:
  assumes "paletteLookup palette t = Inr c"
  shows "\<exists>c1\<in>set palette. \<exists>c2\<in>set palette. \<exists>f. 0 \<le> f \<and> f \<le> 1 \<and> c = interpolateColors c1 c2 f"
proof -
  from assms have ne: "palette \<noteq> []" by (auto simp: paletteLookup_def split: if_splits)
  then have len: "0 < length palette" by simp
  from assms ne obtain k where
    c: "c = interpolateColors (palette ! nat (int (to_size_t k mod length palette)))
          (palette ! (to_size_t (int (to_size_t k mod length palette) + 1) mod length palette))
          (round_float (t - real_of_int \<lfloor>t\<rfloor>))"
    by (auto simp: paletteLookup_def Let_def split: sum.splits)
  have "palette ! nat (int (to_size_t k mod length palette)) \<in> set palette"
    using len by simp
  moreover have "palette ! (to_size_t (int (to_size_t k mod length palette) + 1) mod length palette)
      \<in> set palette"
    using len by simp
  ultimately show ?thesis using c fract_rounded_range[of t] by blast
qed

lemma paletteLookup_defined:
  assumes "palette \<noteq> []" "- 2147483649 < t" "t < 2147483648"
  shows "\<exists>c. paletteLookup palette t = Inr c"
  using assms by (simp add: paletteLookup_def static_cast_int_def Let_def)

lemma escape_2_2:
  "calculateFractal 2 2 (- 0.8) 0.156 128 False 0 True 5 False =
     Inr \<lparr>iteration = 3, smoothIteration = Some (4 - ln (ln 10600 / 2) / ln 2),
          stripeSum = Some ((sin (atan2 2 2 * 5)) ^ 2 + (sin (atan2 10 2 * 5)) ^ 2
                            + (sin (atan2 42 (- 94) * 5)) ^ 2)\<rparr>"
  apply (simp add: calculateFractal_def loopEntry_def Let_def)
  apply (subst mainLoop.simps,
      simp add: loopBody_def stripeTerm_def Let_def ESCAPE_RADIUS_SQUARED_def)
  apply (subst mainLoop.simps,
      simp add: loopBody_def stripeTerm_def Let_def ESCAPE_RADIUS_SQUARED_def)
  apply (subst mainLoop.simps,
      simp add: loopBody_def stripeTerm_def Let_def ESCAPE_RADIUS_SQUARED_def)
  apply (subst mainLoop.simps,
      simp add: ESCAPE_RADIUS_SQUARED_def detailInfo_def smoothFormula_def)
  done

subsection \<open>Black and the interior\<close>

text \<open>
  Claim C2, as stated, fails: the Fire and Grayscale palettes start with black, so the
  interpolation path returns black for an escaped sample whose colour scalar is 0.
  Here: the point \<open>c = (2,2)\<close> escapes after three passes, with the Fire palette and
  a stripe intensity of 0 its colour is (0,0,0), and a render of one pixel at that
  point writes the bytes 0, 0, 0, 255.
\<close>

theorem interior_black_counterexample:
  "calculateFractal 2 2 (- 0.8) 0.156 128 False 0 True 5 False =
     Inr \<lparr>iteration = 3, smoothIteration = Some (4 - ln (ln 10600 / 2) / ln 2),
          stripeSum = Some ((sin (atan2 2 2 * 5)) ^ 2 + (sin (atan2 10 2 * 5)) ^ 2
                            + (sin (atan2 42 (- 94) * 5)) ^ 2)\<rparr>
   \<and> shadePixel
       (defaultState\<lparr>viewportX := 3.5, viewportY := 3.5, colorScheme := 1,
          stripeIntensity := 0\<rparr>)
       (PALETTES ! 1)
       \<lparr>iteration = 3, smoothIteration = Some (4 - ln (ln 10600 / 2) / ln 2),
        stripeSum = Some ((sin (atan2 2 2 * 5)) ^ 2 + (sin (atan2 10 2 * 5)) ^ 2
                          + (sin (atan2 42 (- 94) * 5)) ^ 2)\<rparr>
     = Inr (sfColor 0 0 0)
   \<and> renderFractalRegion (\<lambda>_. 7)
       (defaultState\<lparr>viewportX := 3.5, viewportY := 3.5, colorScheme := 1,
          stripeIntensity := 0\<rparr>)
       0 1 1 1
     = Inr ((\<lambda>_. 7)(0 := 0, 1 := 0, 2 := 0, 3 := 255))"
proof -
  define st where "st = defaultState\<lparr>viewportX := 3.5, viewportY := 3.5, colorScheme := 1,
    stripeIntensity := 0\<rparr>"
  define fire where "fire = PALETTES ! 1"
  have shade: "shadePixel st fire
       \<lparr>iteration = 3, smoothIteration = sm, stripeSum = Some ssum\<rparr> = Inr (sfColor 0 0 0)"
    for sm ssum
    by (simp add: st_def fire_def shadePixel_def colorScalar_def defaultState_def paletteLookup_def
        PALETTES_def static_cast_int_def truncate_real_def to_size_t_def Let_def
        interpolateColors_def static_cast_Uint8_def sfColor_def
        round_double_zero round_float_zero)
  have calc: "calculateFractal (viewportX st - 3 / 2) 2 (juliaX st) (juliaY st)
      (maxIterations st) (showJulia st) (fractalType st) (stripes st) (stripeFrequency st)
      (innerCalculation st) =
     Inr \<lparr>iteration = 3, smoothIteration = Some (4 - ln (ln 10600 / 2) / ln 2),
          stripeSum = Some ((sin (atan2 2 2 * 5)) ^ 2 + (sin (atan2 10 2 * 5)) ^ 2
                            + (sin (atan2 42 (- 94) * 5)) ^ 2)\<rparr>"
    using escape_2_2 by (simp add: st_def defaultState_def)
  have done_cols: "regionCols st fire 3 (3 / 2) 2 1 0 1 pixels = Inr pixels" for pixels
    by (subst regionCols.simps) simp
  have cols: "regionCols st fire 3 (3 / 2) 2 1 0 0 (\<lambda>_. 7) =
      Inr (writePixel (\<lambda>_. 7) 0 (sfColor 0 0 0))"
    by (subst regionCols.simps) (simp add: Let_def calc shade done_cols)
  have done_rows: "regionRows st fire 3 (3 / 2) 1 1 1 pixels = Inr pixels" for pixels
    by (subst regionRows.simps) simp
  have ci: "viewportY st - 3 / 2 = 2" by (simp add: st_def defaultState_def)
  have rows: "regionRows st fire 3 (3 / 2) 1 1 0 (\<lambda>_. 7) =
      Inr (writePixel (\<lambda>_. 7) 0 (sfColor 0 0 0))"
    by (subst regionRows.simps) (simp add: Let_def ci cols done_rows)
  have pal: "PALETTES ! (to_size_t (colorScheme st) mod length PALETTES) = fire"
    by (simp add: st_def fire_def defaultState_def to_size_t_def PALETTES_def)
  have vsize: "viewportSize st = 3" by (simp add: st_def defaultState_def)
  have "renderFractalRegion (\<lambda>_. 7) st 0 1 1 1 = Inr (writePixel (\<lambda>_. 7) 0 (sfColor 0 0 0))"
    unfolding renderFractalRegion_def Let_def pal vsize by (simp add: rows)
  then have render: "renderFractalRegion (\<lambda>_. 7) st 0 1 1 1 =
      Inr ((\<lambda>_. 7)(0 := 0, 1 := 0, 2 := 0, 3 := 255))"
    by (simp add: writePixel_def sfColor_def)
  from escape_2_2 shade render show ?thesis unfolding st_def fire_def by blast
qed

text \<open>
  Claim C2, amended. The interior sentinel is mapped to black for every palette, mode,
  density and intensity. For a result that is not the sentinel and whose colour scalar
  is a number \<open>t\<close> with \<open>-2^31 - 1 < t < 2^31\<close>, so that its conversion to \<^verbatim>\<open>int\<close> is
  defined, the interpolation path under the Classic, Ocean or Arctic palette (indices
  0, 3 and 4) returns a colour whose green channel is not 0, hence not black. The colour
  scalar is a number exactly when, in stripe mode, the iteration count is not 0, and
  otherwise when the smooth iteration value is one. Nothing is said of the other
  samples (a zero iteration count in stripe mode, a smooth value that is NaN, a scalar
  out of the range of \<^verbatim>\<open>int\<close>): there the source converts a NaN or an infinity to an
  integer type, which is undefined, and black can be the outcome.
\<close>

theorem interior_black_amended:
  "(iteration info = - 1 \<longrightarrow> shadePixel state palette info = Inr (sfColor 0 0 0))
   \<and> (to_size_t (colorScheme state) mod length PALETTES \<in> {0, 3, 4}
       \<and> iteration info \<noteq> - 1
       \<and> colorScalar state info = Inr t \<and> - 2147483649 < t \<and> t < 2147483648
       \<longrightarrow> (\<exists>color.
             shadePixel state (PALETTES ! (to_size_t (colorScheme state) mod length PALETTES)) info
               = Inr color
             \<and> chan_g color \<noteq> 0 \<and> color \<noteq> sfColor 0 0 0))
   \<and> ((\<exists>t. colorScalar state info = Inr t) \<longleftrightarrow>
        (if stripes state then stripeSum info \<noteq> None \<and> iteration info \<noteq> 0
         else smoothIteration info \<noteq> None))"
proof (intro conjI impI)
  assume "iteration info = - 1"
  then show "shadePixel state palette info = Inr (sfColor 0 0 0)"
    by (simp add: shadePixel_def)
next
  let ?p = "to_size_t (colorScheme state) mod length PALETTES"
  assume a: "?p \<in> {0, 3, 4} \<and> iteration info \<noteq> - 1
     \<and> colorScalar state info = Inr t \<and> - 2147483649 < t \<and> t < 2147483648"
  then have sh: "shadePixel state (PALETTES ! ?p) info = paletteLookup (PALETTES ! ?p) t"
    by (simp add: shadePixel_def)
  have ne: "PALETTES ! ?p \<noteq> []" using a by (auto simp: PALETTES_def)
  from paletteLookup_defined[OF ne] a obtain color
    where look: "paletteLookup (PALETTES ! ?p) t = Inr color" by blast
  from paletteLookup_members[OF look] obtain c1 c2 f
    where "c1 \<in> set (PALETTES ! ?p)" "c2 \<in> set (PALETTES ! ?p)" "0 \<le> f" "f \<le> 1"
      and "color = interpolateColors c1 c2 f"
    by blast
  with a have g: "chan_g color \<noteq> 0"
    using palettes_green[of ?p] by (simp add: interpolate_green_nonzero)
  then have "color \<noteq> sfColor 0 0 0" by (auto simp: sfColor_def)
  with g look sh
  show "\<exists>color. shadePixel state (PALETTES ! ?p) info = Inr color
          \<and> chan_g color \<noteq> 0 \<and> color \<noteq> sfColor 0 0 0"
    by simp
next
  show "(\<exists>t. colorScalar state info = Inr t) \<longleftrightarrow>
        (if stripes state then stripeSum info \<noteq> None \<and> iteration info \<noteq> 0
         else smoothIteration info \<noteq> None)"
    by (auto simp: colorScalar_def split: option.splits)
qed

theorem interior_black_amended_witness:
  "shadePixel defaultState (PALETTES ! 0) sentinelInfo = Inr (sfColor 0 0 0)
   \<and> to_size_t (colorScheme defaultState) mod length PALETTES \<in> {0, 3, 4}
   \<and> colorScalar defaultState \<lparr>iteration = 3, smoothIteration = Some 2, stripeSum = Some 0\<rparr>
       = Inr 0
   \<and> (\<exists>color.
        shadePixel defaultState
          (PALETTES ! (to_size_t (colorScheme defaultState) mod length PALETTES))
          \<lparr>iteration = 3, smoothIteration = Some 2, stripeSum = Some 0\<rparr> = Inr color
        \<and> chan_g color \<noteq> 0 \<and> color \<noteq> sfColor 0 0 0)"
proof -
  let ?info = "\<lparr>iteration = 3, smoothIteration = Some 2, stripeSum = Some 0\<rparr>"
  have sc: "colorScalar defaultState ?info = Inr 0"
    by (simp add: colorScalar_def defaultState_def round_double_zero round_float_zero)
  have p: "to_size_t (colorScheme defaultState) mod length PALETTES \<in> {0, 3, 4}"
    by (simp add: defaultState_def to_size_t_def PALETTES_def)
  have it: "iteration ?info \<noteq> - 1" by simp
  have r: "- 2147483649 < (0::real)" "(0::real) < 2147483648" by simp_all
  note t = interior_black_amended[where state = defaultState and palette = "PALETTES ! 0"]
  have 1: "shadePixel defaultState (PALETTES ! 0) sentinelInfo = Inr (sfColor 0 0 0)"
    using t[where info = sentinelInfo, THEN conjunct1] by (simp add: sentinelInfo_def)
  have 2: "\<exists>color.
        shadePixel defaultState
          (PALETTES ! (to_size_t (colorScheme defaultState) mod length PALETTES)) ?info = Inr color
        \<and> chan_g color \<noteq> 0 \<and> color \<noteq> sfColor 0 0 0"
    using t[where info = ?info and t = 0, THEN conjunct2, THEN conjunct1] sc p it r by blast
  from 1 p sc 2 show ?thesis by blast
qed

subsection \<open>From the colour scalar to a colour\<close>

lemma palettes_nonempty: "palette \<in> set PALETTES \<Longrightarrow> palette \<noteq> []"
  by (auto simp: PALETTES_def)

lemma palettes_alpha: "palette \<in> set PALETTES \<Longrightarrow> c \<in> set palette \<Longrightarrow> chan_a c = 255"
  by (auto simp: PALETTES_def sfColor_def)

lemma palettes_length: "palette \<in> set PALETTES \<Longrightarrow> length palette < 2 ^ 63"
  by (auto simp: PALETTES_def)

lemma float_factor_product:
  assumes f: "f = round_float y" and d: "\<bar>d\<bar> \<le> 255"
  shows "round_double (f * real_of_int d) = f * real_of_int d"
proof -
  from round_float_representable[of y] f obtain m e
    where fm: "f = real_of_int m * 2 powi e" and m: "\<bar>m\<bar> \<le> 2 ^ 24" and e: "- 149 \<le> e"
    by auto
  have "\<bar>m * d\<bar> = \<bar>m\<bar> * \<bar>d\<bar>" by (rule abs_mult)
  also have "\<dots> \<le> 2 ^ 24 * 255" using m d by (intro mult_mono) simp_all
  also have "\<dots> \<le> 2 ^ 53" by simp
  finally have md: "\<bar>m * d\<bar> \<le> 2 ^ 53" .
  have e': "- 1074 \<le> e" using e by simp
  have eq: "f * real_of_int d = real_of_int (m * d) * 2 powi e" by (simp add: fm)
  show ?thesis unfolding eq by (rule round_double_dyadic[OF md e'])
qed

lemma channel_difference: "\<bar>uint (b :: Uint8) - uint (a :: Uint8)\<bar> \<le> 255"
  using uint8_range[of a] uint8_range[of b] by linarith

lemma blend_channel:
  fixes a b :: Uint8
  assumes f: "f = round_float y" and r: "0 \<le> f" "f \<le> 1"
  shows "static_cast_Uint8 (round_double (real_of_int (uint a)
            + round_double (f * real_of_int (uint b - uint a))))
         = word_of_int \<lfloor>round_double (real_of_int (uint a) + f * real_of_int (uint b - uint a))\<rfloor>"
proof -
  have z: "(0::int) \<le> 0" "(255::int) \<le> 255" by simp_all
  from blend_between(1)[OF r uint8_range uint8_range z, of a b]
  have "0 \<le> round_double (real_of_int (uint a) + round_double (f * real_of_int (uint b - uint a)))"
    by simp
  from static_cast_Uint8_nonneg[OF this] show ?thesis
    by (simp only: float_factor_product[OF f channel_difference])
qed

lemma interpolateColors_float_factor:
  assumes f: "f = round_float y" and r: "0 \<le> f" "f \<le> 1"
  shows "interpolateColors c1 c2 f =
     sfColor
       (word_of_int \<lfloor>round_double (real_of_int (uint (chan_r c1))
          + f * real_of_int (uint (chan_r c2) - uint (chan_r c1)))\<rfloor>)
       (word_of_int \<lfloor>round_double (real_of_int (uint (chan_g c1))
          + f * real_of_int (uint (chan_g c2) - uint (chan_g c1)))\<rfloor>)
       (word_of_int \<lfloor>round_double (real_of_int (uint (chan_b c1))
          + f * real_of_int (uint (chan_b c2) - uint (chan_b c1)))\<rfloor>)"
  by (simp only: interpolateColors_def blend_channel[OF f r])

lemma paletteLookup_nonneg:
  assumes pal: "palette \<in> set PALETTES" and t: "0 \<le> t" "t < 2147483648"
    and tf: "t = round_float y"
  shows "paletteLookup palette t =
     Inr (interpolateColors (palette ! (nat \<lfloor>t\<rfloor> mod length palette))
            (palette ! ((nat \<lfloor>t\<rfloor> mod length palette + 1) mod length palette))
            (t - real_of_int \<lfloor>t\<rfloor>))"
proof -
  have fl: "0 \<le> \<lfloor>t\<rfloor>" "\<lfloor>t\<rfloor> < 2 ^ 64"
    using t by (simp_all add: floor_less_iff)
  have ne: "palette \<noteq> []" by (rule palettes_nonempty[OF pal])
  have k: "to_size_t \<lfloor>t\<rfloor> = nat \<lfloor>t\<rfloor>" by (rule to_size_t_nonneg[OF fl])
  let ?idx = "nat \<lfloor>t\<rfloor> mod length palette"
  have "?idx < length palette" using ne by simp
  with palettes_length[OF pal] have "int ?idx + 1 < 2 ^ 64" by simp
  then have "to_size_t (int ?idx + 1) = ?idx + 1"
    by (subst to_size_t_nonneg) simp_all
  then show ?thesis
    using ne by (simp add: paletteLookup_def static_cast_int_nonneg[OF t] k Let_def
        round_float_fraction[OF tf t(1)])
qed

lemma colorScalar_float:
  assumes "colorScalar state info = Inr t"
  shows "\<exists>y. t = round_float y"
  using assms by (auto simp: colorScalar_def split: option.splits if_splits)

lemma blend_floor:
  fixes a b :: Uint8
  assumes f: "0 \<le> f" "f \<le> 1"
  defines "ex \<equiv> real_of_int (uint a) + f * real_of_int (uint b - uint a)"
  shows "\<lfloor>ex\<rfloor> \<le> \<lfloor>round_double ex\<rfloor>"
    and "\<lfloor>round_double ex\<rfloor> \<le> \<lfloor>ex\<rfloor> + 1"
    and "\<lfloor>round_double ex\<rfloor> = \<lfloor>ex\<rfloor> + 1 \<Longrightarrow> real_of_int \<lfloor>ex\<rfloor> + 1 - ex \<le> 1 / 2 ^ 45"
    and "0 \<le> \<lfloor>round_double ex\<rfloor>" and "\<lfloor>round_double ex\<rfloor> \<le> 255"
proof -
  from convex_between[OF f uint8_range uint8_range, of a b]
  have r: "0 \<le> ex" "ex \<le> 255" by (simp_all add: ex_def)
  then have flr: "0 \<le> \<lfloor>ex\<rfloor>" "\<lfloor>ex\<rfloor> \<le> 255" by (simp_all add: floor_le_iff le_floor_iff)
  have lo: "real_of_int \<lfloor>ex\<rfloor> \<le> ex" and hi: "ex \<le> real_of_int (\<lfloor>ex\<rfloor> + 1)" by linarith+
  have b: "- (2 ^ 53) < \<lfloor>ex\<rfloor>" "\<lfloor>ex\<rfloor> + 1 < 2 ^ 53" using flr by simp_all
  from round_double_bounds[OF lo hi b]
  have rlo: "real_of_int \<lfloor>ex\<rfloor> \<le> round_double ex"
    and rhi: "round_double ex \<le> real_of_int (\<lfloor>ex\<rfloor> + 1)" .
  from rlo show 1: "\<lfloor>ex\<rfloor> \<le> \<lfloor>round_double ex\<rfloor>" by (simp add: le_floor_iff)
  from rhi show "\<lfloor>round_double ex\<rfloor> \<le> \<lfloor>ex\<rfloor> + 1" by (simp add: floor_le_iff)
  from 1 flr(1) show "0 \<le> \<lfloor>round_double ex\<rfloor>" by (rule order_trans[rotated])
  have z: "real_of_int 0 \<le> ex" "ex \<le> real_of_int 255" using r by simp_all
  have zb: "- (2 ^ 53) < (0::int)" "(255::int) < 2 ^ 53" by simp_all
  from round_double_bounds(2)[OF z zb] show "\<lfloor>round_double ex\<rfloor> \<le> 255"
    by (simp add: floor_le_iff)
  have err: "\<bar>round_double ex - ex\<bar> \<le> 1 / 2 ^ 45"
  proof -
    have "\<bar>ex\<bar> / 2 ^ 53 \<le> 255 / 2 ^ 53" using r by (intro divide_right_mono) simp_all
    with round_double_error[of ex] show ?thesis by simp
  qed
  assume a: "\<lfloor>round_double ex\<rfloor> = \<lfloor>ex\<rfloor> + 1"
  have "real_of_int \<lfloor>round_double ex\<rfloor> \<le> round_double ex" by (rule of_int_floor_le)
  then have "real_of_int (\<lfloor>ex\<rfloor> + 1) \<le> round_double ex" unfolding a .
  then have "real_of_int \<lfloor>ex\<rfloor> + 1 \<le> round_double ex" by simp
  with err show "real_of_int \<lfloor>ex\<rfloor> + 1 - ex \<le> 1 / 2 ^ 45" by linarith
qed

lemma floor_minus_one_real: "\<lfloor>- 1 :: real\<rfloor> = - 1"
  by (metis floor_of_int of_int_1 of_int_minus)

lemma static_cast_Uint8_uint: "static_cast_Uint8 (real_of_int (uint (w :: Uint8))) = w"
proof -
  have "0 \<le> real_of_int (uint w)" by (simp only: of_int_0_le_iff uint_ge_0)
  then have "truncate_real (real_of_int (uint w)) = uint w"
    by (simp only: truncate_real_def if_True floor_of_int)
  then show ?thesis by (simp only: static_cast_Uint8_def word_of_int_uint)
qed

lemma round_double_uint8: "round_double (real_of_int (uint (w :: Uint8))) = real_of_int (uint w)"
proof -
  have "\<bar>uint w\<bar> \<le> 2 ^ 53" using uint8_range[of w] by simp
  then show ?thesis by (rule round_double_int)
qed

lemma interpolateColors_zero: "chan_a c1 = 255 \<Longrightarrow> interpolateColors c1 c2 0 = c1"
  by (simp only: interpolateColors_def sfColor_def mult_zero_left round_double_zero add_0_right
        round_double_uint8 static_cast_Uint8_uint) simp

text \<open>
  Claim C4, as stated, fails for a negative scalar: the index is the truncation towards
  zero of \<open>t\<close>, converted to \<^verbatim>\<open>size_t\<close>, and not \<open>floor t\<close> with a floor-based modulo.
  At \<open>t = -1\<close> (stripe intensity -2, stripe average 1/2) the source computes
  \<open>(2^64 - 1) mod 15 = 0\<close> and returns the first colour of the Classic palette, where
  the claim names \<open>palette[(-1) mod 15] = palette[14]\<close>; at \<open>t = -1/2\<close> it blends the
  first two colours where the claim blends the last with the first. (With a 32-bit
  \<^verbatim>\<open>size_t\<close> the index is the same: \<open>(2^32 - 1) mod 15 = 0\<close>.)
\<close>

theorem negative_scalar_counterexample:
  "colorScalar (defaultState\<lparr>stripeIntensity := - 2\<rparr>)
      \<lparr>iteration = 2, smoothIteration = Some 3, stripeSum = Some 1\<rparr> = Inr (- 1)
   \<and> shadePixel (defaultState\<lparr>stripeIntensity := - 2\<rparr>) (PALETTES ! 0)
      \<lparr>iteration = 2, smoothIteration = Some 3, stripeSum = Some 1\<rparr> = Inr (sfColor 66 30 15)
   \<and> (PALETTES ! 0) ! nat (\<lfloor>- 1 :: real\<rfloor> mod int (length (PALETTES ! 0))) = sfColor 153 87 0
   \<and> sfColor 66 30 15 \<noteq> sfColor 153 87 0
   \<and> colorScalar (defaultState\<lparr>stripeIntensity := - 1\<rparr>)
      \<lparr>iteration = 2, smoothIteration = Some 3, stripeSum = Some 1\<rparr> = Inr (- 1 / 2)
   \<and> shadePixel (defaultState\<lparr>stripeIntensity := - 1\<rparr>) (PALETTES ! 0)
      \<lparr>iteration = 2, smoothIteration = Some 3, stripeSum = Some 1\<rparr> = Inr (sfColor 45 18 20)
   \<and> interpolateColors
        ((PALETTES ! 0) ! nat (\<lfloor>- 1 / 2 :: real\<rfloor> mod int (length (PALETTES ! 0))))
        ((PALETTES ! 0) ! nat ((\<lfloor>- 1 / 2 :: real\<rfloor> mod int (length (PALETTES ! 0)) + 1)
                                 mod int (length (PALETTES ! 0))))
        (- 1 / 2 - real_of_int \<lfloor>- 1 / 2 :: real\<rfloor>) = sfColor 109 58 7
   \<and> sfColor 45 18 20 \<noteq> sfColor 109 58 7"
proof -
  let ?info = "\<lparr>iteration = 2, smoothIteration = Some 3, stripeSum = Some 1\<rparr>"
  note rd = round_double_zero round_double_numeral round_double_numeral_half
    round_double_neg_numeral_half round_double_units
  note rf = round_float_zero round_float_units
  have scalar1: "colorScalar (defaultState\<lparr>stripeIntensity := - 2\<rparr>) ?info = Inr (- 1)"
    by (simp add: colorScalar_def defaultState_def rd rf)
  have scalar2: "colorScalar (defaultState\<lparr>stripeIntensity := - 1\<rparr>) ?info = Inr (- 1 / 2)"
    by (simp add: colorScalar_def defaultState_def rd rf)
  have cast1: "static_cast_int (- 1) = Inr (- 1)"
    by (simp add: static_cast_int_def truncate_real_def)
  have cast2: "static_cast_int (- 1 / 2) = Inr 0"
    by (simp add: static_cast_int_def truncate_real_def)
  have lookup1: "paletteLookup (PALETTES ! 0) (- 1) = Inr (sfColor 66 30 15)"
    by (simp add: paletteLookup_def cast1 PALETTES_def Let_def to_size_t_def
          floor_minus_one_real interpolateColors_def static_cast_Uint8_def truncate_real_def
          sfColor_def rd rf)
  have lookup2: "paletteLookup (PALETTES ! 0) (- 1 / 2) = Inr (sfColor 45 18 20)"
    using cast2 by (simp add: paletteLookup_def PALETTES_def Let_def to_size_t_def
          interpolateColors_def static_cast_Uint8_def truncate_real_def sfColor_def rd rf)
  have code1: "shadePixel (defaultState\<lparr>stripeIntensity := - 2\<rparr>) (PALETTES ! 0) ?info
      = Inr (sfColor 66 30 15)"
    by (simp add: shadePixel_def scalar1 lookup1)
  have code2: "shadePixel (defaultState\<lparr>stripeIntensity := - 1\<rparr>) (PALETTES ! 0) ?info
      = Inr (sfColor 45 18 20)"
    using lookup2 by (simp add: shadePixel_def scalar2)
  have claim1: "(PALETTES ! 0) ! nat (\<lfloor>- 1 :: real\<rfloor> mod int (length (PALETTES ! 0)))
      = sfColor 153 87 0"
    by (simp add: PALETTES_def floor_minus_one_real)
  have claim2: "interpolateColors
        ((PALETTES ! 0) ! nat (\<lfloor>- 1 / 2 :: real\<rfloor> mod int (length (PALETTES ! 0))))
        ((PALETTES ! 0) ! nat ((\<lfloor>- 1 / 2 :: real\<rfloor> mod int (length (PALETTES ! 0)) + 1)
                                 mod int (length (PALETTES ! 0))))
        (- 1 / 2 - real_of_int \<lfloor>- 1 / 2 :: real\<rfloor>) = sfColor 109 58 7"
    by (simp add: PALETTES_def interpolateColors_def static_cast_Uint8_def truncate_real_def
          sfColor_def rd)
  have differ1: "sfColor 66 30 15 \<noteq> sfColor 153 87 0"
    and differ2: "sfColor 45 18 20 \<noteq> sfColor 109 58 7"
    by (simp_all add: sfColor_def)
  from scalar1 code1 claim1 differ1 scalar2 code2 claim2 differ2 show ?thesis by blast
qed

text \<open>
  Claim C4, amended. The colour scalar \<open>t\<close> is the \<^verbatim>\<open>float\<close> that the source computes:
  the stripe or the smooth formula, each operation rounded to \<^verbatim>\<open>double\<close> and the result
  rounded to \<^verbatim>\<open>float\<close>. For a result that is not the interior sentinel and whose scalar
  satisfies \<open>0 \<le> t < 2^31\<close>, the colour is taken from \<open>palette[floor t mod length]\<close> and
  the next entry (cyclically) with the fraction \<open>t - floor t\<close>, which the \<^verbatim>\<open>float\<close>
  subtraction yields exactly; each channel is the blend \<open>c1 + frac * (c2 - c1)\<close> rounded
  to the nearest \<^verbatim>\<open>double\<close> and then truncated. The channel is therefore the truncated
  exact blend, or one more when the exact blend lies at most \<open>2^-45\<close> below the next
  integer; it lies in [0, 255]. When \<open>t\<close> is an integer the colour is exactly
  \<open>palette[t mod length]\<close>.
\<close>

theorem scalar_to_color_amended:
  assumes pal: "palette \<in> set PALETTES"
    and esc: "iteration info \<noteq> - 1"
    and scalar: "colorScalar state info = Inr t"
    and range: "0 \<le> t" "t < 2147483648"
  shows "(if stripes state
          then \<exists>ssum. stripeSum info = Some ssum \<and> iteration info \<noteq> 0
                 \<and> t = round_float (round_double (stripeIntensity state
                         * round_double (ssum / real_of_int (iteration info))))
          else \<exists>smooth. smoothIteration info = Some smooth
                 \<and> t = round_float (round_double (smooth * colorDensity state)))
    \<and> (let c1 = palette ! (nat \<lfloor>t\<rfloor> mod length palette);
            c2 = palette ! ((nat \<lfloor>t\<rfloor> mod length palette + 1) mod length palette);
            frac = t - real_of_int \<lfloor>t\<rfloor>;
            exact = (\<lambda>a b :: Uint8. real_of_int (uint a) + frac * real_of_int (uint b - uint a))
        in shadePixel state palette info =
             Inr (sfColor (word_of_int \<lfloor>round_double (exact (chan_r c1) (chan_r c2))\<rfloor>)
                          (word_of_int \<lfloor>round_double (exact (chan_g c1) (chan_g c2))\<rfloor>)
                          (word_of_int \<lfloor>round_double (exact (chan_b c1) (chan_b c2))\<rfloor>))
           \<and> (\<forall>a b. \<lfloor>exact a b\<rfloor> \<le> \<lfloor>round_double (exact a b)\<rfloor>
                  \<and> \<lfloor>round_double (exact a b)\<rfloor> \<le> \<lfloor>exact a b\<rfloor> + 1
                  \<and> (\<lfloor>round_double (exact a b)\<rfloor> = \<lfloor>exact a b\<rfloor> + 1
                       \<longrightarrow> real_of_int \<lfloor>exact a b\<rfloor> + 1 - exact a b \<le> 1 / 2 ^ 45)
                  \<and> 0 \<le> \<lfloor>round_double (exact a b)\<rfloor> \<and> \<lfloor>round_double (exact a b)\<rfloor> \<le> 255))
    \<and> (t = real_of_int \<lfloor>t\<rfloor> \<longrightarrow>
         shadePixel state palette info = Inr (palette ! (nat \<lfloor>t\<rfloor> mod length palette)))"
proof (intro conjI)
  show "if stripes state
          then \<exists>ssum. stripeSum info = Some ssum \<and> iteration info \<noteq> 0
                 \<and> t = round_float (round_double (stripeIntensity state
                         * round_double (ssum / real_of_int (iteration info))))
          else \<exists>smooth. smoothIteration info = Some smooth
                 \<and> t = round_float (round_double (smooth * colorDensity state))"
    using scalar by (auto simp: colorScalar_def split: option.splits if_splits)
  from colorScalar_float[OF scalar] obtain y where tf: "t = round_float y" ..
  let ?c1 = "palette ! (nat \<lfloor>t\<rfloor> mod length palette)"
  let ?c2 = "palette ! ((nat \<lfloor>t\<rfloor> mod length palette + 1) mod length palette)"
  let ?frac = "t - real_of_int \<lfloor>t\<rfloor>"
  have fr: "0 \<le> ?frac" "?frac \<le> 1" using fract_range[of t] by simp_all
  have ff: "?frac = round_float ?frac" by (rule round_float_fraction[OF tf range(1), symmetric])
  have shade: "shadePixel state palette info = Inr (interpolateColors ?c1 ?c2 ?frac)"
    using esc scalar by (simp add: shadePixel_def paletteLookup_nonneg[OF pal range tf])
  show "let c1 = ?c1; c2 = ?c2; frac = ?frac;
            exact = (\<lambda>a b :: Uint8. real_of_int (uint a) + frac * real_of_int (uint b - uint a))
        in shadePixel state palette info =
             Inr (sfColor (word_of_int \<lfloor>round_double (exact (chan_r c1) (chan_r c2))\<rfloor>)
                          (word_of_int \<lfloor>round_double (exact (chan_g c1) (chan_g c2))\<rfloor>)
                          (word_of_int \<lfloor>round_double (exact (chan_b c1) (chan_b c2))\<rfloor>))
           \<and> (\<forall>a b. \<lfloor>exact a b\<rfloor> \<le> \<lfloor>round_double (exact a b)\<rfloor>
                  \<and> \<lfloor>round_double (exact a b)\<rfloor> \<le> \<lfloor>exact a b\<rfloor> + 1
                  \<and> (\<lfloor>round_double (exact a b)\<rfloor> = \<lfloor>exact a b\<rfloor> + 1
                       \<longrightarrow> real_of_int \<lfloor>exact a b\<rfloor> + 1 - exact a b \<le> 1 / 2 ^ 45)
                  \<and> 0 \<le> \<lfloor>round_double (exact a b)\<rfloor> \<and> \<lfloor>round_double (exact a b)\<rfloor> \<le> 255)"
    unfolding Let_def
  proof (intro conjI allI impI)
    show "shadePixel state palette info =
        Inr (sfColor
          (word_of_int \<lfloor>round_double (real_of_int (uint (chan_r ?c1))
              + ?frac * real_of_int (uint (chan_r ?c2) - uint (chan_r ?c1)))\<rfloor>)
          (word_of_int \<lfloor>round_double (real_of_int (uint (chan_g ?c1))
              + ?frac * real_of_int (uint (chan_g ?c2) - uint (chan_g ?c1)))\<rfloor>)
          (word_of_int \<lfloor>round_double (real_of_int (uint (chan_b ?c1))
              + ?frac * real_of_int (uint (chan_b ?c2) - uint (chan_b ?c1)))\<rfloor>))"
      unfolding shade by (simp only: interpolateColors_float_factor[OF ff fr])
  qed (use blend_floor[OF fr] in blast)+
  show "t = real_of_int \<lfloor>t\<rfloor> \<longrightarrow>
         shadePixel state palette info = Inr (palette ! (nat \<lfloor>t\<rfloor> mod length palette))"
  proof
    assume "t = real_of_int \<lfloor>t\<rfloor>"
    then have f: "?frac = 0" by simp
    have "?c1 \<in> set palette" using palettes_nonempty[OF pal] by simp
    then have al: "chan_a ?c1 = 255" by (rule palettes_alpha[OF pal])
    have "interpolateColors ?c1 ?c2 0 = ?c1"
      using al by (rule interpolateColors_zero)
    then show "shadePixel state palette info = Inr ?c1" unfolding shade f by simp
  qed
qed

theorem scalar_to_color_amended_witness:
  "PALETTES ! 2 \<in> set PALETTES
   \<and> colorScalar (defaultState\<lparr>stripes := False, colorDensity := 2\<rparr>)
       \<lparr>iteration = 3, smoothIteration = Some 5, stripeSum = Some 0\<rparr> = Inr 10
   \<and> shadePixel (defaultState\<lparr>stripes := False, colorDensity := 2\<rparr>) (PALETTES ! 2)
       \<lparr>iteration = 3, smoothIteration = Some 5, stripeSum = Some 0\<rparr>
       = Inr ((PALETTES ! 2) ! (nat \<lfloor>10 :: real\<rfloor> mod length (PALETTES ! 2)))
   \<and> (PALETTES ! 2) ! (nat \<lfloor>10 :: real\<rfloor> mod length (PALETTES ! 2)) = sfColor 32 32 32"
proof -
  let ?st = "defaultState\<lparr>stripes := False, colorDensity := 2\<rparr>"
  let ?info = "\<lparr>iteration = 3, smoothIteration = Some 5, stripeSum = Some 0\<rparr>"
  have pal: "PALETTES ! 2 \<in> set PALETTES" by (simp add: PALETTES_def)
  have esc: "iteration ?info \<noteq> - 1" by simp
  have scalar: "colorScalar ?st ?info = Inr 10"
    by (simp add: colorScalar_def defaultState_def round_double_numeral round_float_numeral)
  have range: "(0::real) \<le> 10" "(10::real) < 2147483648" by simp_all
  have int: "(10::real) = real_of_int \<lfloor>10 :: real\<rfloor>" by simp
  from scalar_to_color_amended[OF pal esc scalar range] int
  have "shadePixel ?st (PALETTES ! 2) ?info
       = Inr ((PALETTES ! 2) ! (nat \<lfloor>10 :: real\<rfloor> mod length (PALETTES ! 2)))"
    by blast
  moreover have "(PALETTES ! 2) ! (nat \<lfloor>10 :: real\<rfloor> mod length (PALETTES ! 2)) = sfColor 32 32 32"
    by (simp add: PALETTES_def)
  ultimately show ?thesis using pal scalar by blast
qed

section \<open>Properties of the adaptive iteration policy\<close>

lemma round_double_error_normal:
  assumes "1 / 2 ^ 1022 \<le> \<bar>x\<bar>"
  shows "\<bar>round_double x - x\<bar> \<le> \<bar>x\<bar> / 2 ^ 53"
proof -
  have "(2::real) powi (- 1022) = 1 / 2 ^ 1022"
    using power_int_nonpos[of "- 1022"] by simp
  with assms have "2 powi (- 1022) \<le> \<bar>x\<bar>" by simp
  from round_fp_error_normal[OF this, of 53] show ?thesis by (simp only: round_double_def)
qed

lemma round_double_ge_one: "1 \<le> x \<Longrightarrow> 1 \<le> round_double x"
  using round_fp_ge_pow2[of 0 x "- 1022" 53] by (simp add: round_double_def)

lemma ln_ten_ge_one: "1 \<le> ln (10::real)"
proof -
  have "exp 1 \<le> (10::real)" using exp_le by linarith
  then show ?thesis by (simp add: ln_ge_iff)
qed

lemma ln_ratio_le:
  fixes s A :: real
  assumes "0 < A" "0 < s" "s \<le> A * (1 + d)"
  shows "ln s - ln A \<le> d"
proof -
  have "ln s - ln A = ln (s / A)" using assms by (simp add: ln_divide_pos)
  also have "\<dots> \<le> s / A - 1" by (rule ln_le_minus_one) (use assms in simp)
  also have "\<dots> \<le> d" using assms by (simp add: field_simps)
  finally show ?thesis .
qed

lemma log10_perturb:
  fixes s A :: real
  assumes A: "0 < A" and s: "0 < s" and up: "s \<le> A * (1 + d)" and down: "A \<le> s * (1 + d)"
    and d: "0 \<le> d"
  shows "\<bar>log 10 s - log 10 A\<bar> \<le> d"
proof -
  from ln_ratio_le[OF A s up] ln_ratio_le[OF s A down]
  have "\<bar>ln s - ln A\<bar> \<le> d" by simp
  moreover have "log 10 s - log 10 A = (ln s - ln A) / ln 10"
    by (simp add: log_def diff_divide_distrib)
  moreover have "\<bar>(ln s - ln A) / ln 10\<bar> \<le> \<bar>ln s - ln A\<bar>"
  proof -
    have "\<bar>(ln s - ln A) / ln 10\<bar> = \<bar>ln s - ln A\<bar> / ln 10"
      using ln_ten_ge_one by simp
    also have "\<dots> \<le> \<bar>ln s - ln A\<bar> / 1"
      by (rule divide_left_mono[OF ln_ten_ge_one]) simp_all
    finally show ?thesis by simp
  qed
  ultimately show ?thesis by linarith
qed

lemma log10_power_le:
  fixes x :: real
  assumes "0 < x" "10 ^ k \<le> x ^ n"
  shows "real k \<le> real n * log 10 x"
proof -
  have "real k = log 10 (10 ^ k)" by (rule log_pow_cancel[symmetric]) simp_all
  also have "\<dots> \<le> log 10 (x ^ n)" by (rule log_mono) (use assms in simp_all)
  also have "\<dots> = real n * log 10 x" by (rule log_nat_power) (use assms in simp)
  finally show ?thesis .
qed

lemma log10_power_less:
  fixes x :: real
  assumes "0 < x" "x ^ n < 10 ^ k"
  shows "real n * log 10 x < real k"
proof -
  have "real n * log 10 x = log 10 (x ^ n)" by (rule log_nat_power[symmetric]) (use assms in simp)
  also have "\<dots> < log 10 (10 ^ k)"
    by (rule iffD2[OF log_less_cancel_iff]) (use assms in simp_all)
  also have "\<dots> = real k" by (rule log_pow_cancel) simp_all
  finally show ?thesis .
qed

lemma log10_scaled:
  fixes c :: real
  assumes "0 < c"
  shows "log 10 (c * 10 ^ m) = log 10 c + real m"
proof -
  have "log 10 (c * 10 ^ m) = log 10 c + log 10 (10 ^ m)"
    using assms by (subst log_mult) simp_all
  also have "log 10 ((10::real) ^ m) = real m" by (rule log_pow_cancel) simp_all
  finally show ?thesis .
qed

lemma log10_power_scaled_le:
  fixes x c :: real
  assumes "0 < x" "0 < c" "c * 10 ^ k \<le> x ^ n"
  shows "log 10 c + real k \<le> real n * log 10 x"
proof -
  have "log 10 c + real k = log 10 (c * 10 ^ k)" by (rule log10_scaled[OF assms(2), symmetric])
  also have "\<dots> \<le> log 10 (x ^ n)" by (rule log_mono) (use assms in simp_all)
  also have "\<dots> = real n * log 10 x" by (rule log_nat_power) (use assms in simp)
  finally show ?thesis .
qed

lemma log10_power_scaled_ge:
  fixes x c :: real
  assumes "0 < x" "0 < c" "x ^ n * c \<le> 10 ^ k"
  shows "real n * log 10 x + log 10 c \<le> real k"
proof -
  have "real n * log 10 x + log 10 c = log 10 (x ^ n) + log 10 c"
    using assms(1) by (simp add: log_nat_power)
  also have "\<dots> = log 10 (x ^ n * c)"
    using assms by (subst log_mult) simp_all
  also have "\<dots> \<le> log 10 (10 ^ k)" by (rule log_mono) (use assms in simp_all)
  also have "\<dots> = real k" by (rule log_pow_cancel) simp_all
  finally show ?thesis .
qed

lemma hundred_log10_two: "30 \<le> 100 * log 10 (2::real)" "100 * log 10 (2::real) < 31"
  using log10_power_le[of 2 30 100] log10_power_less[of 2 100 31] by simp_all

lemma log10_299: "33 / 70 \<le> log 10 (299 / 100 :: real)"
proof -
  have nine: "9 \<le> 10 * log 10 (9::real)"
    using log10_power_le[of 9 9 10] by simp
  have "log 10 (9::real) + real 9 \<le> real 21 * log 10 (299 / 100)"
    by (rule log10_power_scaled_le) (simp_all add: power_divide)
  with nine show ?thesis by simp
qed

lemma log10_301: "log 10 (301 / 100 :: real) \<le> 23 / 48"
proof -
  have small: "1 \<le> 48 * log 10 (105 / 100 :: real)"
    using log10_power_le[of "105 / 100" 1 48] by (simp add: power_divide)
  have "real 25 * log 10 (301 / 100 :: real) + log 10 (105 / 100) \<le> real 12"
    by (rule log10_power_scaled_ge) (simp_all add: power_divide)
  with small show ?thesis by simp
qed

lemma deep_zoom_bounds:
  fixes v :: real
  assumes "\<bar>v - 1 / 10 ^ 10\<bar> \<le> 1 / 10 ^ 20"
  shows "1047 + 1 / 10 \<le> 100 * log 10 (1 + 3 / v)"
    and "100 * log 10 (1 + 3 / v) \<le> 1048 - 1 / 12"
proof -
  have vu: "v \<le> 1 / 10 ^ 10 + 1 / 10 ^ 20" and vl: "1 / 10 ^ 10 - 1 / 10 ^ 20 \<le> v"
    using assms unfolding abs_le_iff by linarith+
  have pos: "0 < v" using vl by (rule less_le_trans[rotated]) simp
  have low: "299 / 100 * 10 ^ 10 \<le> 1 + 3 / v"
  proof -
    have "299 / 100 * 10 ^ 10 * v \<le> 3" using vu by simp
    then have "299 / 100 * 10 ^ 10 \<le> 3 / v" using pos by (simp add: field_simps)
    then show ?thesis by simp
  qed
  have up: "1 + 3 / v \<le> 301 / 100 * 10 ^ 10"
  proof -
    have "3 \<le> (301 / 100 * 10 ^ 10 - 1) * v" using vl by simp
    then have "3 / v \<le> 301 / 100 * 10 ^ 10 - 1" using pos by (simp add: field_simps)
    then show ?thesis by simp
  qed
  have p1: "0 < 1 + 3 / v" using pos by (simp add: add_pos_pos)
  have "log 10 (299 / 100 * 10 ^ 10 :: real) \<le> log 10 (1 + 3 / v)"
    by (rule log_mono[OF _ _ low]) simp_all
  moreover have "log 10 (299 / 100 * 10 ^ 10 :: real) = log 10 (299 / 100) + real 10"
    by (rule log10_scaled) simp
  ultimately show "1047 + 1 / 10 \<le> 100 * log 10 (1 + 3 / v)"
    using log10_299 by simp
  have "log 10 (1 + 3 / v) \<le> log 10 (301 / 100 * 10 ^ 10 :: real)"
    by (rule log_mono[OF _ p1 up]) simp
  moreover have "log 10 (301 / 100 * 10 ^ 10 :: real) = log 10 (301 / 100) + real 10"
    by (rule log10_scaled) simp
  ultimately show "100 * log 10 (1 + 3 / v) \<le> 1048 - 1 / 12"
    using log10_301 by simp
qed

lemma zoom_log_bound:
  fixes v :: real
  assumes "1 / 2 ^ n \<le> v"
  shows "0 \<le> log 10 (1 + 3 / v)" "log 10 (1 + 3 / v) \<le> real n + 2"
proof -
  have pos: "0 < v" using assms by (rule less_le_trans[rotated]) simp
  have "1 \<le> v * 2 ^ n" using assms by (simp add: field_simps)
  then have "3 / v \<le> 3 * 2 ^ n" using pos by (simp add: field_simps)
  moreover have "(1::real) \<le> 2 ^ n" by (rule one_le_power) simp
  moreover have "(2::real) ^ (n + 2) = 4 * 2 ^ n" by simp
  ultimately have up: "1 + 3 / v \<le> 2 ^ (n + 2)" by linarith
  have ge1: "1 \<le> 1 + 3 / v" using pos by simp
  have p1: "0 < 1 + 3 / v" using pos by (simp add: add_pos_pos)
  have ten: "(1::real) < 10" by simp
  from zero_le_log_cancel_iff[OF ten p1] ge1 show "0 \<le> log 10 (1 + 3 / v)" by blast
  have "log 10 (1 + 3 / v) \<le> log 10 (2 ^ (n + 2))"
    using p1 up by (intro log_mono) simp_all
  also have "\<dots> = real (n + 2) * log 10 2" by (rule log_nat_power) simp
  also have "\<dots> \<le> real (n + 2) * 1"
  proof (rule mult_left_mono)
    have "log 10 (2::real) \<le> log 10 10" by (intro log_mono) simp_all
    then show "log 10 (2::real) \<le> 1" by simp
  qed simp
  finally show "log 10 (1 + 3 / v) \<le> real n + 2" by simp
qed

lemma log10_rounded_accurate:
  assumes "1 \<le> x" "x \<le> 2 ^ 1024"
  shows "\<bar>log10_rounded x - log 10 x\<bar> \<le> 1 / 2 ^ 40"
proof -
  have pos: "0 < x" using assms(1) by simp
  have ten: "(1::real) < 10" by simp
  from zero_le_log_cancel_iff[OF ten pos] assms(1) have l0: "0 \<le> log 10 x" by blast
  have "log 10 x \<le> log 10 (2 ^ 1024)" by (rule log_mono[OF _ pos assms(2)]) simp
  also have "\<dots> = real 1024 * log 10 2" by (rule log_nat_power) simp
  also have "\<dots> \<le> real 1024 * 1"
  proof (rule mult_left_mono)
    have "log 10 (2::real) \<le> log 10 10" by (intro log_mono) simp_all
    then show "log 10 (2::real) \<le> 1" by simp
  qed simp
  finally have l1: "log 10 x \<le> 1024" by simp
  have "\<bar>log 10 x\<bar> / 2 ^ 53 \<le> 1024 / 2 ^ 53"
    using l0 l1 by (intro divide_right_mono) simp_all
  with round_double_error[of "log 10 x"] show ?thesis
    by (simp add: log10_rounded_def)
qed

lemma zoom_computed:
  fixes v :: real and lg :: "real \<Rightarrow> real"
  assumes lib: "\<forall>x. 1 \<le> x \<and> x \<le> 2 ^ 1024 \<longrightarrow> \<bar>lg x - log 10 x\<bar> \<le> 1 / 2 ^ 40"
    and lo: "1 / 2 ^ 1022 \<le> v" and hi: "v \<le> 2 ^ 1023"
  shows "finite_double (round_double (3 / v))"
    and "1 \<le> round_double (1 + round_double (3 / v))"
    and "\<bar>round_double (100 * lg (round_double (1 + round_double (3 / v))))
           - 100 * log 10 (1 + 3 / v)\<bar> \<le> 1 / 2 ^ 32"
proof -
  define K :: real where "K = 2 ^ 1022"
  have K1: "2 \<le> K" unfolding K_def by simp
  have K4: "(2::real) ^ 1024 = 4 * K" and K2: "(2::real) ^ 1023 = 2 * K"
    by (simp_all add: K_def)
  have lo': "1 / K \<le> v" using lo by (simp only: K_def)
  have hi': "v \<le> 2 * K" using hi by (simp only: K2)
  have Kpos: "0 < K" using K1 by linarith
  have pos: "0 < v" using lo' Kpos by (meson divide_pos_pos less_le_trans zero_less_one)
  define z where "z = 3 / v"
  have zpos: "0 < z" using pos by (simp add: z_def)
  have zK: "z \<le> 3 * K"
  proof -
    have "1 \<le> K * v" using lo' Kpos by (simp add: field_simps)
    then have "3 \<le> 3 * K * v" by simp
    then show ?thesis using pos by (simp add: z_def field_simps)
  qed
  have zlow: "1 / K \<le> z"
  proof -
    have "v \<le> 3 * K" using hi' Kpos by linarith
    then have "1 * v \<le> 3 * K" by simp
    then show ?thesis using pos Kpos by (simp add: z_def field_simps)
  qed
  define q where "q = round_double z"
  have "1 / 2 ^ 1022 \<le> \<bar>z\<bar>" using zlow zpos by (simp add: K_def)
  from round_double_error_normal[OF this]
  have qe: "\<bar>q - z\<bar> \<le> z / 2 ^ 53" using zpos by (simp add: q_def)
  have qup: "q \<le> z + z / 2 ^ 53" and qlo: "z - z / 2 ^ 53 \<le> q"
    using qe by linarith+
  have q0: "0 \<le> q" using qlo zpos by (simp add: field_simps; linarith)
  have "q < 4 * K" using qup zK K1 by (simp add: field_simps; linarith)
  then have "\<bar>q\<bar> < 4 * K" using q0 by simp
  then show "finite_double (round_double (3 / v))"
    by (simp only: finite_double_def K4 q_def z_def)
  define a where "a = 1 + q"
  have a1: "1 \<le> a" using q0 by (simp add: a_def)
  define s where "s = round_double a"
  have "1 / 2 ^ 1022 \<le> \<bar>a\<bar>"
  proof -
    have "(1::real) / 2 ^ 1022 \<le> 1" by simp
    with a1 show ?thesis by linarith
  qed
  from round_double_error_normal[OF this]
  have se: "\<bar>s - a\<bar> \<le> a / 2 ^ 53" using a1 by (simp add: s_def)
  have sup: "s \<le> a + a / 2 ^ 53" and slo: "a - a / 2 ^ 53 \<le> s"
    using se by linarith+
  have s1: "1 \<le> s" unfolding s_def by (rule round_double_ge_one[OF a1])
  then show "1 \<le> round_double (1 + round_double (3 / v))"
    by (simp only: s_def a_def q_def z_def)
  have s4: "s \<le> 4 * K" using sup qup zK K1 unfolding a_def by (simp add: field_simps; linarith)
  define A where "A = 1 + z"
  have Apos: "0 < A" using zpos by (simp add: A_def)
  have spos: "0 < s" using s1 by simp
  have up: "s \<le> A * (1 + 3 / 2 ^ 53)"
    using sup qup zpos unfolding a_def A_def by (simp add: field_simps; linarith)
  have down: "A \<le> s * (1 + 3 / 2 ^ 53)"
    using slo qlo zpos unfolding a_def A_def by (simp add: field_simps; linarith)
  have d0: "(0::real) \<le> 3 / 2 ^ 53" by simp
  from log10_perturb[OF Apos spos up down d0]
  have p: "\<bar>log 10 s - log 10 A\<bar> \<le> 3 / 2 ^ 53" .
  have "s \<le> 2 ^ 1024" using s4 by (simp only: K4)
  with lib s1 have l: "\<bar>lg s - log 10 s\<bar> \<le> 1 / 2 ^ 40" by blast
  from zoom_log_bound[OF lo]
  have L: "0 \<le> log 10 A" "log 10 A \<le> 1024" by (simp_all add: A_def z_def)
  define w where "w = 100 * lg s"
  have wl: "\<bar>w - 100 * log 10 A\<bar> \<le> 100 / 2 ^ 40 + 300 / 2 ^ 53"
    using p l unfolding w_def by linarith
  have small: "(100::real) / 2 ^ 40 + 300 / 2 ^ 53 \<le> 1" by simp
  have wb: "\<bar>w\<bar> \<le> 102500" using wl L small by linarith
  have "\<bar>w\<bar> / 2 ^ 53 \<le> 102500 / 2 ^ 53" using wb by (intro divide_right_mono) simp_all
  with round_double_error[of w]
  have ye: "\<bar>round_double w - w\<bar> \<le> 102500 / 2 ^ 53 + 1 / 2 ^ 1075" by linarith
  have total: "(102500::real) / 2 ^ 53 + 1 / 2 ^ 1075 + (100 / 2 ^ 40 + 300 / 2 ^ 53) \<le> 1 / 2 ^ 32"
    by simp
  have "\<bar>round_double w - 100 * log 10 A\<bar> \<le> 1 / 2 ^ 32"
    using ye wl total by linarith
  then show "\<bar>round_double (100 * lg (round_double (1 + round_double (3 / v))))
           - 100 * log 10 (1 + 3 / v)\<bar> \<le> 1 / 2 ^ 32"
    by (simp only: w_def s_def a_def q_def z_def A_def)
qed

lemma adjustIterations_computed:
  assumes auto: "autoIterations state"
    and lib: "\<forall>x. 1 \<le> x \<and> x \<le> 2 ^ 1024 \<longrightarrow> \<bar>lg x - log 10 x\<bar> \<le> 1 / 2 ^ 40"
    and lo: "1 / 2 ^ 1022 \<le> viewportSize state" and hi: "viewportSize state \<le> 2 ^ 1023"
  shows "adjustIterations lg state =
      Inr (state\<lparr>maxIterations := max 100 (min 10000 (truncate_real
        (round_double (100 * lg (round_double (1 + round_double (3 / viewportSize state)))))))\<rparr>)"
proof -
  let ?v = "viewportSize state"
  let ?y = "round_double (100 * lg (round_double (1 + round_double (3 / ?v))))"
  have nz: "?v \<noteq> 0"
  proof -
    have "(0::real) < 1 / 2 ^ 1022" by simp
    with lo show ?thesis by linarith
  qed
  note c = zoom_computed[OF lib lo hi]
  from zoom_log_bound[OF lo]
  have L: "0 \<le> 100 * log 10 (1 + 3 / ?v)" "100 * log 10 (1 + 3 / ?v) \<le> 102400" by simp_all
  have d: "(1::real) / 2 ^ 32 \<le> 1" by simp
  have e: "- 1 \<le> ?y - 100 * log 10 (1 + 3 / ?v)" "?y - 100 * log 10 (1 + 3 / ?v) \<le> 1"
    using c(3) d by linarith+
  have "- 2147483649 < ?y" "?y < 2147483648" using e L by linarith+
  then have cast: "static_cast_int ?y = Inr (truncate_real ?y)"
    by (simp add: static_cast_int_def)
  have arg: "\<not> round_double (1 + round_double (3 / ?v)) \<le> 0" using c(2) by simp
  show ?thesis
    using auto nz c(1) arg by (simp add: adjustIterations_def Let_def cast)
qed

lemma truncate_real_floor:
  assumes "real_of_int n \<le> y" "y < real_of_int n + 1" "0 \<le> n"
  shows "truncate_real y = n"
proof -
  have "0 \<le> y" using assms(1,3) by (meson of_int_0_le_iff order_trans)
  moreover have "\<lfloor>y\<rfloor> = n" using assms(1,2) by (simp add: floor_eq_iff)
  ultimately show ?thesis by (simp add: truncate_real_def)
qed

lemma truncate_real_close:
  assumes near: "\<bar>y - X\<bar> \<le> d" and X: "0 \<le> X" and d: "d < 1"
  shows "\<bar>truncate_real y - \<lfloor>X\<rfloor>\<bar> \<le> 1"
proof (cases "0 \<le> y")
  case True
  have "y < real_of_int (\<lfloor>X\<rfloor> + 1) + 1" using near d by (simp; linarith)
  then have up: "\<lfloor>y\<rfloor> \<le> \<lfloor>X\<rfloor> + 1" by (simp only: floor_le_iff)
  have "real_of_int (\<lfloor>X\<rfloor> - 1) \<le> y" using near d by (simp; linarith)
  then have low: "\<lfloor>X\<rfloor> - 1 \<le> \<lfloor>y\<rfloor>" by (simp only: le_floor_iff)
  from up low True show ?thesis by (simp add: truncate_real_def)
next
  case False
  then have neg: "y < 0" by simp
  have "0 < - y" "- y < 1" using neg near X d by linarith+
  then have "\<lfloor>- y\<rfloor> = 0" by (simp add: floor_eq_iff)
  then have t: "truncate_real y = 0" using False by (simp add: truncate_real_def)
  have "X < 1" using neg near d by linarith
  with X have "\<lfloor>X\<rfloor> = 0" by (simp add: floor_eq_iff)
  with t show ?thesis by simp
qed

lemma unit_zoom_bounds:
  "30 + 1 / 10 \<le> 100 * log 10 (1 + 3 / 3 :: real)" "100 * log 10 (1 + 3 / 3 :: real) \<le> 31 - 1 / 2"
proof -
  have "real 301 \<le> real 1000 * log 10 (2::real)"
    by (rule log10_power_le) simp_all
  then show "30 + 1 / 10 \<le> 100 * log 10 (1 + 3 / 3 :: real)" by simp
  have seven: "1 \<le> 2 * log 10 (7::real)"
    using log10_power_le[of 7 1 2] by simp
  have "real 100 * log 10 (2::real) + log 10 7 \<le> real 31"
    by (rule log10_power_scaled_ge) simp_all
  with seven show "100 * log 10 (1 + 3 / 3 :: real) \<le> 31 - 1 / 2" by simp
qed

lemma adjustIterations_value:
  assumes auto: "autoIterations state"
    and lib: "\<forall>x. 1 \<le> x \<and> x \<le> 2 ^ 1024 \<longrightarrow> \<bar>lg x - log 10 x\<bar> \<le> 1 / 2 ^ 40"
    and lo: "1 / 2 ^ 1022 \<le> viewportSize state" and hi: "viewportSize state \<le> 2 ^ 1023"
    and n: "0 \<le> n" "real_of_int n + 1 / 2 ^ 32 \<le> 100 * log 10 (1 + 3 / viewportSize state)"
      "100 * log 10 (1 + 3 / viewportSize state) < real_of_int n + 1 - 1 / 2 ^ 32"
  shows "truncate_real (round_double (100 * lg (round_double
           (1 + round_double (3 / viewportSize state))))) = n"
    and "adjustIterations lg state = Inr (state\<lparr>maxIterations := max 100 (min 10000 n)\<rparr>)"
proof -
  let ?y = "round_double (100 * lg (round_double (1 + round_double (3 / viewportSize state))))"
  from zoom_computed(3)[OF lib lo hi]
  have "real_of_int n \<le> ?y" "?y < real_of_int n + 1" using n(2,3) by linarith+
  from truncate_real_floor[OF this n(1)] show t: "truncate_real ?y = n" .
  show "adjustIterations lg state = Inr (state\<lparr>maxIterations := max 100 (min 10000 n)\<rparr>)"
    unfolding adjustIterations_computed[OF auto lib lo hi] t ..
qed

lemma adjustIterations_unit:
  assumes auto: "autoIterations state"
    and lib: "\<forall>x. 1 \<le> x \<and> x \<le> 2 ^ 1024 \<longrightarrow> \<bar>lg x - log 10 x\<bar> \<le> 1 / 2 ^ 40"
    and v: "viewportSize state = 3"
  shows "truncate_real (round_double (100 * lg (round_double
           (1 + round_double (3 / viewportSize state))))) = 30"
    and "adjustIterations lg state = Inr (state\<lparr>maxIterations := 100\<rparr>)"
proof -
  have lo: "1 / 2 ^ 1022 \<le> viewportSize state" and hi: "viewportSize state \<le> 2 ^ 1023"
    unfolding v by simp_all
  have n: "(0::int) \<le> 30"
    "real_of_int 30 + 1 / 2 ^ 32 \<le> 100 * log 10 (1 + 3 / viewportSize state)"
    "100 * log 10 (1 + 3 / viewportSize state) < real_of_int 30 + 1 - 1 / 2 ^ 32"
    unfolding v using unit_zoom_bounds by simp_all
  from adjustIterations_value[OF auto lib lo hi n]
  show "truncate_real (round_double (100 * lg (round_double
           (1 + round_double (3 / viewportSize state))))) = 30"
    and "adjustIterations lg state = Inr (state\<lparr>maxIterations := 100\<rparr>)"
    by simp_all
qed

lemma deep_zoom_in_range:
  fixes v :: real
  assumes "\<bar>v - 1 / 10 ^ 10\<bar> \<le> 1 / 10 ^ 20"
  shows "1 / 2 ^ 1022 \<le> v" "v \<le> 2 ^ 1023"
proof -
  have vu: "v \<le> 1 / 10 ^ 10 + 1 / 10 ^ 20" and vl: "1 / 10 ^ 10 - 1 / 10 ^ 20 \<le> v"
    using assms unfolding abs_le_iff by linarith+
  have "(1::real) / 2 ^ 1022 \<le> 1 / 10 ^ 10 - 1 / 10 ^ 20" by simp
  with vl show "1 / 2 ^ 1022 \<le> v" by linarith
  have "(1::real) / 10 ^ 10 + 1 / 10 ^ 20 \<le> 2 ^ 1023" by simp
  with vu show "v \<le> 2 ^ 1023" by linarith
qed

lemma adjustIterations_deep:
  assumes auto: "autoIterations state"
    and lib: "\<forall>x. 1 \<le> x \<and> x \<le> 2 ^ 1024 \<longrightarrow> \<bar>lg x - log 10 x\<bar> \<le> 1 / 2 ^ 40"
    and v: "\<bar>viewportSize state - 1 / 10 ^ 10\<bar> \<le> 1 / 10 ^ 20"
  shows "adjustIterations lg state = Inr (state\<lparr>maxIterations := 1047\<rparr>)"
proof -
  note r = deep_zoom_in_range[OF v]
  have n: "(0::int) \<le> 1047"
    "real_of_int 1047 + 1 / 2 ^ 32 \<le> 100 * log 10 (1 + 3 / viewportSize state)"
    "100 * log 10 (1 + 3 / viewportSize state) < real_of_int 1047 + 1 - 1 / 2 ^ 32"
    using deep_zoom_bounds[OF v] by simp_all
  from adjustIterations_value(2)[OF auto lib r n] show ?thesis by simp
qed

lemma log10_rounded_lib:
  "\<forall>x. 1 \<le> x \<and> x \<le> 2 ^ 1024 \<longrightarrow> \<bar>log10_rounded x - log 10 x\<bar> \<le> 1 / 2 ^ 40"
  using log10_rounded_accurate by blast

text \<open>
  Claim C3, as stated, fails in its second example: for \<^verbatim>\<open>viewportSize = 1e-10\<close> the
  zoom is \<open>3 * 10^10\<close>, \<open>100 * log10 (1 + zoom)\<close> is about 1047.7, and
  \<^verbatim>\<open>maxIterations\<close> becomes 1047, not 10000.
\<close>

theorem adjustIterations_deep_zoom_counterexample:
  "adjustIterations log10_rounded (defaultState\<lparr>viewportSize := 1 / 10 ^ 10\<rparr>) =
     Inr (defaultState\<lparr>viewportSize := 1 / 10 ^ 10, maxIterations := 1047\<rparr>)"
proof -
  let ?st = "defaultState\<lparr>viewportSize := 1 / 10 ^ 10\<rparr>"
  have auto: "autoIterations ?st" by (simp add: defaultState_def)
  have v: "\<bar>viewportSize ?st - 1 / 10 ^ 10\<bar> \<le> 1 / 10 ^ 20" by simp
  from adjustIterations_deep[OF auto log10_rounded_lib v] show ?thesis .
qed

text \<open>
  Claim C3, amended. Let the library's \<^verbatim>\<open>log10\<close> be within \<open>2^-40\<close> of the logarithm on
  [1, 2^1024], auto-iteration be enabled and the viewport size lie between \<open>2^-1022\<close>
  and \<open>2^1023\<close> (a positive normal \<^verbatim>\<open>double\<close>; the quotient \<^verbatim>\<open>3.0 / viewportSize\<close> is
  then finite). Then \<^verbatim>\<open>adjustIterations\<close> sets \<^verbatim>\<open>maxIterations\<close> to the computed
  \<^verbatim>\<open>double\<close> \<open>y\<close>, truncated and clamped to [100, 10000]; \<open>y\<close> differs from
  \<open>X = 100 * log10 (1 + 3 / viewportSize)\<close> by at most \<open>2^-32\<close>, so the truncated value is
  within 1 of \<open>floor X\<close> and equal to it unless \<open>X\<close> lies within \<open>2^-32\<close> of an integer.
  A size of 3 gives 100 (computed value 30); a size within \<open>10^-20\<close> of \<open>10^-10\<close>, such
  as the \<^verbatim>\<open>double\<close> nearest to it, gives 1047.
\<close>

theorem adjustIterations_amended:
  assumes auto: "autoIterations state"
    and lib: "\<forall>x. 1 \<le> x \<and> x \<le> 2 ^ 1024 \<longrightarrow> \<bar>log10_lib x - log 10 x\<bar> \<le> 1 / 2 ^ 40"
    and lo: "1 / 2 ^ 1022 \<le> viewportSize state" and hi: "viewportSize state \<le> 2 ^ 1023"
  shows "let X = 100 * log 10 (1 + 3 / viewportSize state);
             y = round_double (100 * log10_lib (round_double
                   (1 + round_double (3 / viewportSize state))))
         in adjustIterations log10_lib state =
              Inr (state\<lparr>maxIterations := max 100 (min 10000 (truncate_real y))\<rparr>)
            \<and> \<bar>y - X\<bar> \<le> 1 / 2 ^ 32
            \<and> \<bar>truncate_real y - \<lfloor>X\<rfloor>\<bar> \<le> 1
            \<and> (1 / 2 ^ 32 \<le> X - real_of_int \<lfloor>X\<rfloor> \<and> X - real_of_int \<lfloor>X\<rfloor> < 1 - 1 / 2 ^ 32 \<longrightarrow>
                 truncate_real y = \<lfloor>X\<rfloor>
                 \<and> adjustIterations log10_lib state =
                     Inr (state\<lparr>maxIterations := max 100 (min 10000 \<lfloor>X\<rfloor>)\<rparr>))
            \<and> (viewportSize state = 3 \<longrightarrow>
                 truncate_real y = 30
                 \<and> adjustIterations log10_lib state = Inr (state\<lparr>maxIterations := 100\<rparr>))
            \<and> (\<bar>viewportSize state - 1 / 10 ^ 10\<bar> \<le> 1 / 10 ^ 20 \<longrightarrow>
                 adjustIterations log10_lib state = Inr (state\<lparr>maxIterations := 1047\<rparr>))"
  unfolding Let_def
proof (intro conjI impI)
  let ?X = "100 * log 10 (1 + 3 / viewportSize state)"
  let ?y = "round_double (100 * log10_lib (round_double
              (1 + round_double (3 / viewportSize state))))"
  show "adjustIterations log10_lib state =
          Inr (state\<lparr>maxIterations := max 100 (min 10000 (truncate_real ?y))\<rparr>)"
    by (rule adjustIterations_computed[OF auto lib lo hi])
  show near: "\<bar>?y - ?X\<bar> \<le> 1 / 2 ^ 32" by (rule zoom_computed(3)[OF lib lo hi])
  have X0: "0 \<le> ?X" using zoom_log_bound(1)[OF lo] by simp
  have d: "(1::real) / 2 ^ 32 < 1" by simp
  show "\<bar>truncate_real ?y - \<lfloor>?X\<rfloor>\<bar> \<le> 1" by (rule truncate_real_close[OF near X0 d])
next
  let ?X = "100 * log 10 (1 + 3 / viewportSize state)"
  assume a: "1 / 2 ^ 32 \<le> ?X - real_of_int \<lfloor>?X\<rfloor> \<and> ?X - real_of_int \<lfloor>?X\<rfloor> < 1 - 1 / 2 ^ 32"
  have X0: "0 \<le> ?X" using zoom_log_bound(1)[OF lo] by simp
  then have n0: "0 \<le> \<lfloor>?X\<rfloor>" by simp
  have n1: "real_of_int \<lfloor>?X\<rfloor> + 1 / 2 ^ 32 \<le> ?X" using a by linarith
  have n2: "?X < real_of_int \<lfloor>?X\<rfloor> + 1 - 1 / 2 ^ 32" using a by linarith
  from adjustIterations_value[OF auto lib lo hi n0 n1 n2]
  show "truncate_real (round_double (100 * log10_lib (round_double
          (1 + round_double (3 / viewportSize state))))) = \<lfloor>?X\<rfloor>"
    and "adjustIterations log10_lib state =
          Inr (state\<lparr>maxIterations := max 100 (min 10000 \<lfloor>?X\<rfloor>)\<rparr>)" .
next
  assume v: "viewportSize state = 3"
  from adjustIterations_unit[OF auto lib v]
  show "truncate_real (round_double (100 * log10_lib (round_double
          (1 + round_double (3 / viewportSize state))))) = 30"
    and "adjustIterations log10_lib state = Inr (state\<lparr>maxIterations := 100\<rparr>)" .
next
  assume "\<bar>viewportSize state - 1 / 10 ^ 10\<bar> \<le> 1 / 10 ^ 20"
  from adjustIterations_deep[OF auto lib this]
  show "adjustIterations log10_lib state = Inr (state\<lparr>maxIterations := 1047\<rparr>)" .
qed

theorem adjustIterations_amended_witness:
  "autoIterations defaultState
   \<and> (1 / 2 ^ 1022 :: real) \<le> viewportSize defaultState
   \<and> viewportSize defaultState \<le> 2 ^ 1023
   \<and> viewportSize defaultState = 3
   \<and> adjustIterations log10_rounded defaultState = Inr (defaultState\<lparr>maxIterations := 100\<rparr>)"
proof -
  have auto: "autoIterations defaultState" by (simp add: defaultState_def)
  have v: "viewportSize defaultState = 3" by (simp add: defaultState_def)
  have lo: "(1 / 2 ^ 1022 :: real) \<le> viewportSize defaultState"
    and hi: "viewportSize defaultState \<le> 2 ^ 1023"
    unfolding v by simp_all
  from adjustIterations_amended[OF auto log10_rounded_lib lo hi, unfolded Let_def] v
  have "adjustIterations log10_rounded defaultState = Inr (defaultState\<lparr>maxIterations := 100\<rparr>)"
    by blast
  with auto lo hi v show ?thesis by blast
qed

end
